theory Spec2Isabelle
  imports Main "HOL-Library.Word"
begin

unbundle bit_operations_syntax

section \<open>Machine types\<close>

text \<open>
  The C sources compute on \<open>unsigned char\<close> (8 bits) and \<open>unsigned int\<close> (32 bits);
  both wrap around.  Arrays are lists; a length or an index of C type \<open>int\<close> is an
  \<open>int\<close> here.
\<close>

type_synonym u8 = "8 word"
type_synonym u32 = "32 word"

text \<open>
  Reading and writing an array element.  An index outside the array is undefined
  behaviour in C; the model answers \<open>None\<close> there, and \<open>None\<close> is passed on by every
  function that would have gone on after such an access.
\<close>

definition read_at :: "'a list \<Rightarrow> int \<Rightarrow> 'a option" where
  "read_at xs i = (if 0 \<le> i \<and> i < int (length xs) then Some (xs ! nat i) else None)"

definition write_at :: "'a list \<Rightarrow> int \<Rightarrow> 'a \<Rightarrow> 'a list option" where
  "write_at xs i v = (if 0 \<le> i \<and> i < int (length xs) then Some (xs[nat i := v]) else None)"

text \<open>Division and remainder of C on \<open>int\<close>: the quotient is truncated towards zero.\<close>

definition c_div :: "int \<Rightarrow> int \<Rightarrow> int" where
  "c_div a b = sgn a * sgn b * (\<bar>a\<bar> div \<bar>b\<bar>)"

definition c_rem :: "int \<Rightarrow> int \<Rightarrow> int" where
  "c_rem a b = a - b * c_div a b"

definition INT_MAX :: int where
  "INT_MAX = 2 ^ 31 - 1"

section \<open>ZUC (src/src/ZUC.c)\<close>

subsection \<open>Tables and macros of ZUC.h\<close>

text \<open>
  \<open>ZUC.h\<close> is not among the sources.  Its two S-boxes (arrays of 256 bytes, always
  indexed by a byte) and its sixteen constants \<open>ZUC_d\<close> are parameters of the model.
\<close>

record zuc_tables =
  ZUC_S0 :: "u8 \<Rightarrow> u8"
  ZUC_S1 :: "u8 \<Rightarrow> u8"
  ZUC_d :: "u32 list"

text \<open>Modelled from the spec: \<open>ZUC_rotl32\<close>, the macro of \<open>ZUC.h\<close> that rotates a
  32-bit word to the left (\<open>ROL\<close> in section 4.3 of the specification).\<close>

definition ZUC_rotl32 :: "u32 \<Rightarrow> nat \<Rightarrow> u32" where
  "ZUC_rotl32 x n = word_rotl n x"

text \<open>Modelled from the spec: \<open>ZUC_LinkToS\<close>, the macro of \<open>ZUC.h\<close> that forms a cell
  as \<open>k\<^sub>i || d\<^sub>i || iv\<^sub>i\<close> (8, 15 and 8 bits).\<close>

definition ZUC_LinkToS :: "u8 \<Rightarrow> u32 \<Rightarrow> u8 \<Rightarrow> u32" where
  "ZUC_LinkToS a b c = push_bit 23 (ucast a) OR push_bit 8 b OR ucast c"

subsection \<open>Arithmetic modulo \<open>2^31 - 1\<close> and the linear transformations\<close>

definition AddMod :: "u32 \<Rightarrow> u32 \<Rightarrow> u32" where
  "AddMod a b =
     (let c = a + b
      in if drop_bit 31 c \<noteq> 0 then (c AND 0x7fffffff) + 1 else c)"

definition PowMod :: "u32 \<Rightarrow> nat \<Rightarrow> u32" where
  "PowMod x k = (push_bit k x OR drop_bit (31 - k) x) AND 0x7fffffff"

definition L1 :: "u32 \<Rightarrow> u32" where
  "L1 X = X XOR ZUC_rotl32 X 2 XOR ZUC_rotl32 X 10 XOR ZUC_rotl32 X 18 XOR ZUC_rotl32 X 24"

definition L2 :: "u32 \<Rightarrow> u32" where
  "L2 X = X XOR ZUC_rotl32 X 8 XOR ZUC_rotl32 X 14 XOR ZUC_rotl32 X 22 XOR ZUC_rotl32 X 30"

subsection \<open>The LFSR\<close>

text \<open>The loop \<open>for (i = 0; i < 15; i++) LFSR_S[i] = LFSR_S[i + 1]\<close>.\<close>

function LFSR_shift :: "nat \<Rightarrow> u32 list \<Rightarrow> u32 list" where
  "LFSR_shift i S = (if i < 15 then LFSR_shift (i + 1) (S[i := S ! (i + 1)]) else S)"
  by pat_completeness auto
termination
  by (relation "measure (\<lambda>(i, S). 15 - i)") auto

declare LFSR_shift.simps [simp del]

definition LFSR_feedback :: "u32 list \<Rightarrow> u32" where
  "LFSR_feedback S =
     (let v = S ! 0;
          v = AddMod v (PowMod (S ! 15) 15);
          v = AddMod v (PowMod (S ! 13) 17);
          v = AddMod v (PowMod (S ! 10) 21);
          v = AddMod v (PowMod (S ! 4) 20);
          v = AddMod v (PowMod (S ! 0) 8)
      in v)"

definition LFSRWithInitMode :: "u32 list \<Rightarrow> u32 \<Rightarrow> u32 list" where
  "LFSRWithInitMode S u =
     (let v = LFSR_feedback S;
          S = LFSR_shift 0 S;
          S = S[15 := AddMod v u]
      in if S ! 15 = 0 then S[15 := 0x7fffffff] else S)"

definition LFSRWithWorkMode :: "u32 list \<Rightarrow> u32 list" where
  "LFSRWithWorkMode S =
     (let v = LFSR_feedback S;
          S = LFSR_shift 0 S;
          S = S[15 := v]
      in if S ! 15 = 0 then S[15 := 0x7fffffff] else S)"

text \<open>The invariant of the LFSR: sixteen cells, each in \<open>[1, 2^31 - 1]\<close>.\<close>

definition lfsr_inv :: "u32 list \<Rightarrow> bool" where
  "lfsr_inv S \<longleftrightarrow> length S = 16 \<and> (\<forall>x \<in> set S. 1 \<le> x \<and> x \<le> 0x7fffffff)"

subsection \<open>Bit reconstruction and the nonlinear function\<close>

definition BR :: "u32 list \<Rightarrow> u32 list" where
  "BR S =
     [push_bit 1 (S ! 15 AND 0x7fff8000) OR (S ! 14 AND 0x0000ffff),
      push_bit 16 (S ! 11 AND 0x0000ffff) OR drop_bit 15 (S ! 9 AND 0x7fff8000),
      push_bit 16 (S ! 7 AND 0x0000ffff) OR drop_bit 15 (S ! 5 AND 0x7fff8000),
      push_bit 16 (S ! 2 AND 0x0000ffff) OR drop_bit 15 (S ! 0 AND 0x7fff8000)]"

definition ZUC_S :: "zuc_tables \<Rightarrow> u32 \<Rightarrow> u32" where
  "ZUC_S T x =
     push_bit 24 (ucast (ZUC_S0 T (ucast (drop_bit 24 x AND 0xFF))))
     OR push_bit 16 (ucast (ZUC_S1 T (ucast (drop_bit 16 x AND 0xFF))))
     OR push_bit 8 (ucast (ZUC_S0 T (ucast (drop_bit 8 x AND 0xFF))))
     OR ucast (ZUC_S1 T (ucast (x AND 0xFF)))"

text \<open>\<open>F\<close> returns \<open>W\<close> and the updated registers \<open>F_R = [R1, R2]\<close>.\<close>

definition F :: "zuc_tables \<Rightarrow> u32 list \<Rightarrow> u32 list \<Rightarrow> u32 \<times> u32 list" where
  "F T X R =
     (let W = (X ! 0 XOR R ! 0) + R ! 1;
          W1 = R ! 0 + X ! 1;
          W2 = R ! 1 XOR X ! 2;
          R = R[0 := L1 (push_bit 16 W1 OR drop_bit 16 W2)];
          R = R[0 := ZUC_S T (R ! 0)];
          R = R[1 := L2 (push_bit 16 W2 OR drop_bit 16 W1)];
          R = R[1 := ZUC_S T (R ! 1)]
      in (W, R))"

subsection \<open>Initialisation, working stage and key stream\<close>

text \<open>The state of the generator: \<open>LFSR_S\<close>, \<open>BR_X\<close> and \<open>F_R\<close>.\<close>

type_synonym zuc_state = "u32 list \<times> u32 list \<times> u32 list"

text \<open>One pass of the \<open>while (count)\<close> loop of \<open>ZUC_Init\<close>.\<close>

definition ZUC_Init_round :: "zuc_tables \<Rightarrow> zuc_state \<Rightarrow> zuc_state" where
  "ZUC_Init_round T st =
     (case st of (S, X, R) \<Rightarrow>
        let X = BR S;
            (W, R) = F T X R;
            S = LFSRWithInitMode S (drop_bit 1 W)
        in (S, X, R))"

primrec ZUC_Init_loop :: "zuc_tables \<Rightarrow> nat \<Rightarrow> zuc_state \<Rightarrow> zuc_state" where
  "ZUC_Init_loop T 0 st = st"
| "ZUC_Init_loop T (Suc count) st = ZUC_Init_loop T count (ZUC_Init_round T st)"

text \<open>\<open>BR_X\<close> is the caller's array of four words, passed in as it is.\<close>

definition ZUC_Init :: "zuc_tables \<Rightarrow> u8 list \<Rightarrow> u8 list \<Rightarrow> u32 list \<Rightarrow> zuc_state" where
  "ZUC_Init T k iv X =
     (let S = map (\<lambda>i. ZUC_LinkToS (k ! i) (ZUC_d T ! i) (iv ! i)) [0..<16];
          R = [0x00, 0x00]
      in ZUC_Init_loop T 32 (S, X, R))"

text \<open>The \<open>while (i < KeyStreamLen)\<close> loop of \<open>ZUC_Work\<close>; the words written to
  \<open>pKeyStream[0], pKeyStream[1], ...\<close> are collected in order.\<close>

function ZUC_Work_loop :: "zuc_tables \<Rightarrow> int \<Rightarrow> int \<Rightarrow> zuc_state \<Rightarrow> u32 list \<Rightarrow> u32 list" where
  "ZUC_Work_loop T i KeyStreamLen st ks =
     (if i < KeyStreamLen then
        (case st of (S, X, R) \<Rightarrow>
           let X = BR S;
               (W, R) = F T X R;
               z = W XOR X ! 3;
               S = LFSRWithWorkMode S
           in ZUC_Work_loop T (i + 1) KeyStreamLen (S, X, R) (ks @ [z]))
      else ks)"
  by pat_completeness auto
termination
  by (relation "measure (\<lambda>(T, i, n, st, ks). nat (n - i))") auto

declare ZUC_Work_loop.simps [simp del]

definition ZUC_Work :: "zuc_tables \<Rightarrow> zuc_state \<Rightarrow> int \<Rightarrow> u32 list" where
  "ZUC_Work T st KeyStreamLen =
     (case st of (S, X, R) \<Rightarrow>
        let X = BR S;
            (W, R) = F T X R;
            S = LFSRWithWorkMode S
        in ZUC_Work_loop T 0 KeyStreamLen (S, X, R) [])"

text \<open>\<open>BR_X\<close> is a local array of \<open>ZUC_GenKeyStream\<close>, overwritten by \<open>BR\<close> before it is
  read; it starts here as four zero words.\<close>

definition ZUC_GenKeyStream :: "zuc_tables \<Rightarrow> u8 list \<Rightarrow> u8 list \<Rightarrow> int \<Rightarrow> u32 list" where
  "ZUC_GenKeyStream T k iv KeyStreamLen =
     ZUC_Work T (ZUC_Init T k iv [0, 0, 0, 0]) KeyStreamLen"

subsection \<open>128-EEA3: \<open>ZUC_Confidentiality\<close>\<close>

definition EEA3_iv :: "u32 \<Rightarrow> u8 \<Rightarrow> u8 \<Rightarrow> u8 list" where
  "EEA3_iv COUNT BEARER DIRECTION =
     (let iv0 = ucast (drop_bit 24 COUNT) :: u8;
          iv1 = ucast (drop_bit 16 COUNT AND 0xff) :: u8;
          iv2 = ucast (drop_bit 8 COUNT AND 0xff) :: u8;
          iv3 = ucast (COUNT AND 0xff) :: u8;
          iv4 = ucast ((push_bit 3 (ucast BEARER :: u32) OR push_bit 2 (ucast DIRECTION :: u32))
                  AND 0xfc) :: u8;
          iv5 = 0x00; iv6 = 0x00; iv7 = 0x00
      in [iv0, iv1, iv2, iv3, iv4, iv5, iv6, iv7, iv0, iv1, iv2, iv3, iv4, iv5, iv6, iv7])"

text \<open>The loop \<open>for (i = 0; i < L; i++) OBS[i] = IBS[i] ^ k[i]\<close>.\<close>

function EEA3_xor_loop :: "int \<Rightarrow> int \<Rightarrow> u32 list \<Rightarrow> u32 list \<Rightarrow> u32 list \<Rightarrow> u32 list option" where
  "EEA3_xor_loop i L IBS k OBS =
     (if i < L then
        (case read_at IBS i of None \<Rightarrow> None | Some x \<Rightarrow>
         case read_at k i of None \<Rightarrow> None | Some z \<Rightarrow>
         case write_at OBS i (x XOR z) of None \<Rightarrow> None | Some OBS' \<Rightarrow>
           EEA3_xor_loop (i + 1) L IBS k OBS')
      else Some OBS)"
  by pat_completeness auto
termination
  by (relation "measure (\<lambda>(i, L, IBS, k, OBS). nat (L - i))") auto

declare EEA3_xor_loop.simps [simp del]

text \<open>
  \<open>LEN\<close> stands for the parameter \<open>LENGTH\<close> of the source (a name the word library
  reserves).  \<open>OBS\<close> is the caller's output array; the result is its content on return.  \<open>LENGTH + 31\<close>
  beyond \<open>INT_MAX\<close> overflows a C \<open>int\<close> and is undefined, like an access outside an array.
  The key stream \<open>k\<close> is the block of \<open>L\<close> words that \<open>malloc\<close> returned.
\<close>

definition ZUC_Confidentiality ::
  "zuc_tables \<Rightarrow> u8 list \<Rightarrow> u32 \<Rightarrow> u8 \<Rightarrow> u8 \<Rightarrow> u32 list \<Rightarrow> int \<Rightarrow> u32 list \<Rightarrow> u32 list option" where
  "ZUC_Confidentiality T CK COUNT BEARER DIRECTION IBS LEN OBS =
     (if LEN + 31 > INT_MAX then None
      else
        let iv = EEA3_iv COUNT BEARER DIRECTION;
            L = c_div (LEN + 31) 32;
            k = ZUC_GenKeyStream T CK iv L
        in case EEA3_xor_loop 0 L IBS k OBS of None \<Rightarrow> None | Some OBS \<Rightarrow>
             let t = c_rem LEN 32
             in if t \<noteq> 0 then
                  (case read_at OBS (L - 1) of None \<Rightarrow> None | Some w \<Rightarrow>
                     write_at OBS (L - 1) (push_bit (nat (32 - t)) (drop_bit (nat (32 - t)) w)))
                else Some OBS)"

subsection \<open>128-EIA3: \<open>ZUC_Integrity\<close>\<close>

text \<open>The parameter \<open>i\<close> of \<open>BitValue\<close> and \<open>GetWord\<close> is an \<open>unsigned int\<close>; \<open>j\<close> and the
  shift count are \<open>int\<close>.\<close>

definition BitValue :: "u32 list \<Rightarrow> u32 \<Rightarrow> u8 option" where
  "BitValue M i =
     (let j = uint (drop_bit 5 i);
          k = unat (i AND 0x1f)
      in case read_at M j of None \<Rightarrow> None
         | Some w \<Rightarrow> Some (if w AND push_bit (31 - k) 0x1 \<noteq> 0 then 1 else 0))"

definition GetWord :: "u32 list \<Rightarrow> u32 \<Rightarrow> u32 option" where
  "GetWord k i =
     (let j = uint (drop_bit 5 i);
          m = unat (i AND 0x1f)
      in if m = 0 then read_at k j
         else (case read_at k j of None \<Rightarrow> None | Some a \<Rightarrow>
               case read_at k (j + 1) of None \<Rightarrow> None | Some b \<Rightarrow>
                 Some (push_bit m a OR drop_bit (32 - m) b)))"

definition EIA3_iv :: "u32 \<Rightarrow> u8 \<Rightarrow> u8 \<Rightarrow> u8 list" where
  "EIA3_iv COUNT BEARER DIRECTION =
     (let iv0 = ucast (drop_bit 24 COUNT) :: u8;
          iv1 = ucast (drop_bit 16 COUNT AND 0xff) :: u8;
          iv2 = ucast (drop_bit 8 COUNT AND 0xff) :: u8;
          iv3 = ucast (COUNT AND 0xff) :: u8;
          iv4 = push_bit 3 BEARER;
          iv5 = 0x00; iv6 = 0x00; iv7 = 0x00
      in [iv0, iv1, iv2, iv3, iv4, iv5, iv6, iv7,
          iv0 XOR push_bit 7 DIRECTION, iv1, iv2, iv3, iv4, iv5,
          iv6 XOR push_bit 7 DIRECTION, iv7])"

text \<open>The loop \<open>for (i = 0; i < LENGTH; i++) if (BitValue(M, i)) T = T ^ GetWord(k, i)\<close>.\<close>

function EIA3_loop :: "u32 list \<Rightarrow> u32 list \<Rightarrow> int \<Rightarrow> int \<Rightarrow> u32 \<Rightarrow> u32 option" where
  "EIA3_loop M k i LEN T =
     (if i < LEN then
        (case BitValue M (word_of_int i) of None \<Rightarrow> None
         | Some b \<Rightarrow>
             if b \<noteq> 0 then
               (case GetWord k (word_of_int i) of None \<Rightarrow> None
                | Some ki \<Rightarrow> EIA3_loop M k (i + 1) LEN (T XOR ki))
             else EIA3_loop M k (i + 1) LEN T)
      else Some T)"
  by pat_completeness auto
termination
  by (relation "measure (\<lambda>(M, k, i, LEN, T). nat (LEN - i))") auto

declare EIA3_loop.simps [simp del]

text \<open>\<open>LENGTH + 31\<close> and \<open>32 * (L - 1)\<close> are \<open>int\<close> expressions; beyond \<open>INT_MAX\<close> they are
  undefined.\<close>

definition ZUC_Integrity ::
  "zuc_tables \<Rightarrow> u8 list \<Rightarrow> u32 \<Rightarrow> u8 \<Rightarrow> u8 \<Rightarrow> u32 list \<Rightarrow> int \<Rightarrow> u32 option" where
  "ZUC_Integrity T IK COUNT BEARER DIRECTION M LEN =
     (if LEN + 31 > INT_MAX then None
      else
        let iv = EIA3_iv COUNT BEARER DIRECTION;
            L = c_div (LEN + 31) 32 + 2;
            k = ZUC_GenKeyStream T IK iv L
        in case EIA3_loop M k 0 LEN 0 of None \<Rightarrow> None | Some T \<Rightarrow>
           case GetWord k (word_of_int LEN) of None \<Rightarrow> None | Some ki \<Rightarrow>
             let T = T XOR ki
             in if 32 * (L - 1) > INT_MAX then None
                else (case GetWord k (word_of_int (32 * (L - 1))) of None \<Rightarrow> None
                      | Some ki \<Rightarrow> Some (T XOR ki)))"

subsection \<open>The bit streams of the specification\<close>

text \<open>
  Section 4.3 of the specification reads the message and the key stream as bit streams,
  most significant bit of word 0 first.  \<open>stream_bit ws n\<close> is bit \<open>n\<close> of the stream,
  \<open>stream_bits ws n\<close> its first \<open>n\<close> bits, and \<open>stream_word ws i\<close> the 32 bits that start at
  bit \<open>i\<close>.  \<open>EIA3_spec\<close> is the MAC in the specification's words.
\<close>

definition stream_bit :: "u32 list \<Rightarrow> nat \<Rightarrow> bool" where
  "stream_bit ws n = bit (ws ! (n div 32)) (31 - n mod 32)"

definition stream_bits :: "u32 list \<Rightarrow> nat \<Rightarrow> bool list" where
  "stream_bits ws n = map (stream_bit ws) [0..<n]"

definition stream_word :: "u32 list \<Rightarrow> nat \<Rightarrow> u32" where
  "stream_word ws i = horner_sum of_bool 2 (map (\<lambda>b. stream_bit ws (i + 31 - b)) [0..<32])"

definition EIA3_spec :: "u32 list \<Rightarrow> u32 list \<Rightarrow> nat \<Rightarrow> u32" where
  "EIA3_spec k M LEN =
     (let L = (LEN + 31) div 32 + 2;
          T = fold (\<lambda>i T. if stream_bit M i then T XOR stream_word k i else T) [0..<LEN] 0;
          T = T XOR stream_word k LEN
      in T XOR stream_word k (32 * (L - 1)))"

text \<open>The last word of an output of \<open>LEN\<close> bits with its unused low bits zeroed.\<close>

definition mask_last :: "int \<Rightarrow> u32 list \<Rightarrow> u32 list" where
  "mask_last LEN ws =
     (if LEN mod 32 = 0 \<or> ws = [] then ws
      else butlast ws @ [push_bit (nat (32 - LEN mod 32)) (drop_bit (nat (32 - LEN mod 32)) (last ws))])"

text \<open>The value stored in \<open>LFSR_S[15]\<close> after the test \<open>if (!LFSR_S[15])\<close>.\<close>

definition new_cell :: "u32 \<Rightarrow> u32" where
  "new_cell v = (if v = 0 then 0x7fffffff else v)"


subsection \<open>Sample tables\<close>

text \<open>
  A value for the tables of \<open>ZUC.h\<close>, for stating theorems at concrete inputs: the sixteen
  constants are those of the ZUC standard, the two S-boxes are stand-ins (the identity and
  the successor on bytes).
\<close>

definition sample_tables :: zuc_tables where
  "sample_tables =
     \<lparr>ZUC_S0 = (\<lambda>x. x), ZUC_S1 = (\<lambda>x. x + 1),
      ZUC_d = [0x44D7, 0x26BC, 0x626B, 0x135E, 0x5789, 0x35E2, 0x7135, 0x09AF,
               0x4D78, 0x2F13, 0x6BC4, 0x1AF1, 0x5E26, 0x3C4D, 0x789A, 0x47AC]\<rparr>"

section \<open>SM4 (SM4.c)\<close>

subsection \<open>Tables and macro of SM4.h\<close>

text \<open>
  \<open>SM4.h\<close> is not among the sources.  Its S-box (an array of 256 bytes, always indexed by
  a byte) and its constants \<open>SM4_FK[4]\<close> and \<open>SM4_CK[32]\<close> are parameters of the model.
\<close>

record sm4_tables =
  SM4_Sbox :: "u8 \<Rightarrow> u8"
  SM4_FK :: "u32 list"
  SM4_CK :: "u32 list"

text \<open>Modelled from the spec: \<open>SM4_Rotl32\<close>, the macro of \<open>SM4.h\<close> that rotates a 32-bit
  word to the left (\<open>ROL\<close> in section 4.2 of the specification).\<close>

definition SM4_Rotl32 :: "u32 \<Rightarrow> nat \<Rightarrow> u32" where
  "SM4_Rotl32 buf n = word_rotl n buf"

subsection \<open>The shared expressions\<close>

text \<open>
  Four bytes packed into a word, \<open>(b[0] << 24) | (b[1] << 16) | (b[2] << 8) | b[3]\<close>, and
  the four bytes \<open>(x >> 24) & 0xFF\<close>, ..., \<open>x & 0xFF\<close> of a word.  The bytes are promoted to
  32 bits before the shift.
\<close>

definition SM4_pack :: "u8 \<Rightarrow> u8 \<Rightarrow> u8 \<Rightarrow> u8 \<Rightarrow> u32" where
  "SM4_pack b0 b1 b2 b3 =
     push_bit 24 (ucast b0) OR push_bit 16 (ucast b1) OR push_bit 8 (ucast b2) OR ucast b3"

definition SM4_unpack :: "u32 \<Rightarrow> u8 list" where
  "SM4_unpack x =
     [ucast (drop_bit 24 x AND 0xFF), ucast (drop_bit 16 x AND 0xFF),
      ucast (drop_bit 8 x AND 0xFF), ucast (x AND 0xFF)]"

text \<open>The nonlinear operation on \<open>tmp\<close>, written out in each of the three functions.\<close>

definition SM4_nonlinear :: "sm4_tables \<Rightarrow> u32 \<Rightarrow> u32" where
  "SM4_nonlinear T tmp =
     push_bit 24 (ucast (SM4_Sbox T (ucast (drop_bit 24 tmp AND 0xFF))))
     OR push_bit 16 (ucast (SM4_Sbox T (ucast (drop_bit 16 tmp AND 0xFF))))
     OR push_bit 8 (ucast (SM4_Sbox T (ucast (drop_bit 8 tmp AND 0xFF))))
     OR ucast (SM4_Sbox T (ucast (tmp AND 0xFF)))"

subsection \<open>\<open>SM4_KeySchedule\<close>\<close>

text \<open>
  The local arrays \<open>K[36]\<close> and \<open>X[36]\<close> and the array \<open>rk[32]\<close> are not initialised in the
  source; every cell is written before it is read, and the model starts them with zeros.
\<close>

function SM4_KeySchedule_loop ::
  "sm4_tables \<Rightarrow> nat \<Rightarrow> u32 list \<Rightarrow> u32 list \<Rightarrow> u32 list \<times> u32 list" where
  "SM4_KeySchedule_loop T i K rk =
     (if i < 32 then
        let tmp = K ! (i + 1) XOR K ! (i + 2) XOR K ! (i + 3) XOR SM4_CK T ! i;
            buf = SM4_nonlinear T tmp;
            K = K[i + 4 := K ! i XOR (buf XOR SM4_Rotl32 buf 13 XOR SM4_Rotl32 buf 23)];
            rk = rk[i := K ! (i + 4)]
        in SM4_KeySchedule_loop T (i + 1) K rk
      else (K, rk))"
  by pat_completeness auto
termination
  by (relation "measure (\<lambda>(T, i, K, rk). 32 - i)") auto

declare SM4_KeySchedule_loop.simps [simp del]

definition SM4_KeySchedule :: "sm4_tables \<Rightarrow> u8 list \<Rightarrow> u32 list" where
  "SM4_KeySchedule T MK =
     (let K = fold (\<lambda>i K. K[i := SM4_FK T ! i XOR
                       SM4_pack (MK ! (4 * i)) (MK ! (4 * i + 1)) (MK ! (4 * i + 2)) (MK ! (4 * i + 3))])
                [0..<4] (replicate 36 0)
      in snd (SM4_KeySchedule_loop T 0 K (replicate 32 0)))"

subsection \<open>\<open>SM4_Encrypt\<close> and \<open>SM4_Decrypt\<close>\<close>

function SM4_Encrypt_loop :: "sm4_tables \<Rightarrow> u32 list \<Rightarrow> nat \<Rightarrow> u32 list \<Rightarrow> u32 list" where
  "SM4_Encrypt_loop T rk i X =
     (if i < 32 then
        let tmp = X ! (i + 1) XOR X ! (i + 2) XOR X ! (i + 3) XOR rk ! i;
            buf = SM4_nonlinear T tmp;
            X = X[i + 4 := X ! i XOR (buf XOR SM4_Rotl32 buf 2 XOR SM4_Rotl32 buf 10
                                        XOR SM4_Rotl32 buf 18 XOR SM4_Rotl32 buf 24)]
        in SM4_Encrypt_loop T rk (i + 1) X
      else X)"
  by pat_completeness auto
termination
  by (relation "measure (\<lambda>(T, rk, i, X). 32 - i)") auto

declare SM4_Encrypt_loop.simps [simp del]

text \<open>The result is the sixteen bytes written to \<open>CipherText[0], ..., CipherText[15]\<close>.\<close>

definition SM4_Encrypt :: "sm4_tables \<Rightarrow> u8 list \<Rightarrow> u8 list \<Rightarrow> u8 list" where
  "SM4_Encrypt T MK PlainText =
     (let rk = SM4_KeySchedule T MK;
          X = fold (\<lambda>j X. X[j := SM4_pack (PlainText ! (j * 4)) (PlainText ! (j * 4 + 1))
                                    (PlainText ! (j * 4 + 2)) (PlainText ! (j * 4 + 3))])
                [0..<4] (replicate 36 0);
          X = SM4_Encrypt_loop T rk 0 X
      in concat (map (\<lambda>j. SM4_unpack (X ! (35 - j))) [0..<4]))"

function SM4_Decrypt_loop :: "sm4_tables \<Rightarrow> u32 list \<Rightarrow> nat \<Rightarrow> u32 list \<Rightarrow> u32 list" where
  "SM4_Decrypt_loop T rk i X =
     (if i < 32 then
        let tmp = X ! (i + 1) XOR X ! (i + 2) XOR X ! (i + 3) XOR rk ! (31 - i);
            buf = SM4_nonlinear T tmp;
            X = X[i + 4 := X ! i XOR (buf XOR SM4_Rotl32 buf 2 XOR SM4_Rotl32 buf 10
                                        XOR SM4_Rotl32 buf 18 XOR SM4_Rotl32 buf 24)]
        in SM4_Decrypt_loop T rk (i + 1) X
      else X)"
  by pat_completeness auto
termination
  by (relation "measure (\<lambda>(T, rk, i, X). 32 - i)") auto

declare SM4_Decrypt_loop.simps [simp del]

definition SM4_Decrypt :: "sm4_tables \<Rightarrow> u8 list \<Rightarrow> u8 list \<Rightarrow> u8 list" where
  "SM4_Decrypt T MK CipherText =
     (let rk = SM4_KeySchedule T MK;
          X = fold (\<lambda>j X. X[j := SM4_pack (CipherText ! (j * 4)) (CipherText ! (j * 4 + 1))
                                    (CipherText ! (j * 4 + 2)) (CipherText ! (j * 4 + 3))])
                [0..<4] (replicate 36 0);
          X = SM4_Decrypt_loop T rk 0 X
      in concat (map (\<lambda>j. SM4_unpack (X ! (35 - j))) [0..<4]))"

subsection \<open>The round structure of the specification\<close>

text \<open>
  Section 4.2 of the specification: one round maps \<open>(X\<^sub>i, X\<^sub>i\<^sub>+\<^sub>1, X\<^sub>i\<^sub>+\<^sub>2, X\<^sub>i\<^sub>+\<^sub>3)\<close> to
  \<open>(X\<^sub>i\<^sub>+\<^sub>1, X\<^sub>i\<^sub>+\<^sub>2, X\<^sub>i\<^sub>+\<^sub>3, X\<^sub>i\<^sub>+\<^sub>4)\<close> with \<open>X\<^sub>i\<^sub>+\<^sub>4 = X\<^sub>i XOR T(X\<^sub>i\<^sub>+\<^sub>1 XOR X\<^sub>i\<^sub>+\<^sub>2 XOR X\<^sub>i\<^sub>+\<^sub>3 XOR rk\<^sub>i)\<close>;
  \<open>SM4_rounds\<close> packs the sixteen bytes, runs one round per round key of the list it is
  given, in the list's order, and unpacks the four words in reverse order.
\<close>

type_synonym sm4_block = "u32 \<times> u32 \<times> u32 \<times> u32"

definition SM4_L :: "u32 \<Rightarrow> u32" where
  "SM4_L b = b XOR word_rotl 2 b XOR word_rotl 10 b XOR word_rotl 18 b XOR word_rotl 24 b"

definition SM4_round :: "sm4_tables \<Rightarrow> sm4_block \<Rightarrow> u32 \<Rightarrow> sm4_block" where
  "SM4_round T s rk =
     (case s of (x0, x1, x2, x3) \<Rightarrow>
        (x1, x2, x3, x0 XOR SM4_L (SM4_nonlinear T (x1 XOR x2 XOR x3 XOR rk))))"

definition SM4_load :: "u8 list \<Rightarrow> sm4_block" where
  "SM4_load B =
     (SM4_pack (B ! 0) (B ! 1) (B ! 2) (B ! 3), SM4_pack (B ! 4) (B ! 5) (B ! 6) (B ! 7),
      SM4_pack (B ! 8) (B ! 9) (B ! 10) (B ! 11), SM4_pack (B ! 12) (B ! 13) (B ! 14) (B ! 15))"

definition SM4_store_rev :: "sm4_block \<Rightarrow> u8 list" where
  "SM4_store_rev s =
     (case s of (x0, x1, x2, x3) \<Rightarrow>
        SM4_unpack x3 @ SM4_unpack x2 @ SM4_unpack x1 @ SM4_unpack x0)"

definition SM4_rounds :: "sm4_tables \<Rightarrow> u32 list \<Rightarrow> u8 list \<Rightarrow> u8 list" where
  "SM4_rounds T rks B = SM4_store_rev (foldl (SM4_round T) (SM4_load B) rks)"

text \<open>The reversal of the four words of a block.\<close>

definition rev4 :: "sm4_block \<Rightarrow> sm4_block" where
  "rev4 s = (case s of (x0, x1, x2, x3) \<Rightarrow> (x3, x2, x1, x0))"

text \<open>A value for the tables of \<open>SM4.h\<close>, for stating theorems at concrete inputs: the four
  \<open>FK\<close> words are those of the SM4 standard; the S-box and the \<open>CK\<close> words are stand-ins.\<close>

definition sample_sm4_tables :: sm4_tables where
  "sample_sm4_tables =
     \<lparr>SM4_Sbox = (\<lambda>x. x + 0xd6),
      SM4_FK = [0xA3B1BAC6, 0x56AA3350, 0x677D9197, 0xB27022DC],
      SM4_CK = map (\<lambda>i. of_nat (i * 0x070e151c)) [0..<32]\<rparr>"


section \<open>The MIRACL interface used by the SM2 sources\<close>

text \<open>
  The SM2 sources compute on MIRACL's type \<open>big\<close> and on its points of an elliptic curve.
  MIRACL is a library outside the repository.  A \<open>big\<close> is an \<open>int\<close> here and the
  arithmetic of MIRACL is the arithmetic of \<open>int\<close>; the operations on points are
  parameters of the model, collected in the record \<open>curve\<close>.
\<close>

subsection \<open>Big numbers\<close>

text \<open>Modelled from the spec: \<open>bytes_to_big(len, ptr, x)\<close>, the number whose big-endian
  digits are the first \<open>len\<close> bytes at \<open>ptr\<close> (section 6, \<open>from_bytes(be, width)\<close>).\<close>

definition bytes_to_big :: "nat \<Rightarrow> u8 list \<Rightarrow> int" where
  "bytes_to_big len ptr = foldl (\<lambda>x c. x * 256 + uint c) 0 (take len ptr)"

text \<open>Modelled from the spec: \<open>big_to_bytes(max, x, ptr, TRUE)\<close>, the \<open>max\<close> bytes of the
  big-endian representation of \<open>x\<close>, padded on the left with zeros (section 6,
  \<open>to_bytes(be, width)\<close>); \<open>len\<close> stands for \<open>max\<close>.  MIRACL reports an error for a
  number that does not fit; the model keeps its low \<open>len\<close> bytes.\<close>

definition big_to_bytes :: "nat \<Rightarrow> int \<Rightarrow> u8 list" where
  "big_to_bytes len x = map (\<lambda>i. word_of_int (x div 256 ^ (len - 1 - i))) [0..<len]"

text \<open>Modelled from the spec: \<open>divide(x, y, z)\<close> leaves the remainder in \<open>x\<close> and the
  quotient in \<open>z\<close>.  MIRACL keeps a sign and a magnitude and divides the magnitudes, so
  the quotient is truncated towards zero.  The pair is (remainder, quotient).\<close>

definition divide :: "int \<Rightarrow> int \<Rightarrow> int \<times> int" where
  "divide x y = (c_rem x y, c_div x y)"

text \<open>Modelled from the spec: \<open>power(x, n, z, w)\<close> sets \<open>w = x^n mod z\<close>.\<close>

definition power_mod :: "int \<Rightarrow> nat \<Rightarrow> int \<Rightarrow> int" where
  "power_mod x n z = c_rem (x ^ n) z"

text \<open>Modelled from the spec: \<open>xgcd(x, y, xd, yd, z)\<close> with \<open>xd\<close>, \<open>yd\<close> and \<open>z\<close> the same
  variable, MIRACL's idiom for the inverse of \<open>x\<close> modulo \<open>y\<close> (section 6, \<open>xgcd\<close> for
  modular inverse): the extended Euclidean algorithm, which keeps \<open>r\<^sub>i = s\<^sub>i * x (mod y)\<close>,
  followed by the reduction of the coefficient into \<open>[0, y)\<close>.\<close>

function xgcd_loop :: "int \<Rightarrow> int \<Rightarrow> int \<Rightarrow> int \<Rightarrow> int \<times> int" where
  "xgcd_loop r0 r1 s0 s1 =
     (if r1 = 0 then (r0, s0)
      else xgcd_loop r1 (r0 mod r1) s1 (s0 - (r0 div r1) * s1))"
  by pat_completeness auto
termination
  by (relation "measure (\<lambda>(r0, r1, s0, s1). nat \<bar>r1\<bar>)") (auto simp: abs_mod_less)

declare xgcd_loop.simps [simp del]

definition xgcd :: "int \<Rightarrow> int \<Rightarrow> int" where
  "xgcd x y = snd (xgcd_loop x y 1 0) mod y"

subsection \<open>Points of the curve\<close>

text \<open>
  The operations of MIRACL on points, for the curve that \<open>ecurve_init\<close> has made the
  active one.  \<open>epoint_init\<close> is a new point, which MIRACL marks as the point at infinity.
  \<open>epoint_set x y\<close> is \<open>None\<close> where MIRACL's \<open>epoint_set(x, y, 0, p)\<close> returns \<open>FALSE\<close>
  (the pair is not on the curve), and the point otherwise.  \<open>ecurve_add p pa\<close> is the
  value of \<open>pa\<close> after \<open>ecurve_add(p, pa)\<close>.
\<close>

record 'pt curve =
  epoint_init :: "'pt"
  epoint_set :: "int \<Rightarrow> int \<Rightarrow> 'pt option"
  epoint_get :: "'pt \<Rightarrow> int \<times> int"
  ecurve_mult :: "int \<Rightarrow> 'pt \<Rightarrow> 'pt"
  ecurve_add :: "'pt \<Rightarrow> 'pt \<Rightarrow> 'pt"
  point_at_infinity :: "'pt \<Rightarrow> bool"

text \<open>\<open>ecurve_init(a, b, p, MR_PROJECTIVE)\<close>: MIRACL as a function from the parameters of
  the curve to the operations on it.\<close>

type_synonym 'pt miracl = "int \<Rightarrow> int \<Rightarrow> int \<Rightarrow> 'pt curve"

text \<open>
  What the sources rely on, for a base point \<open>G\<close> of order \<open>n\<close>: on the multiples of \<open>G\<close>
  by non-negative scalars the operations are those of a group in which \<open>G\<close> has order
  exactly \<open>n\<close>, and a multiple that is not the point at infinity has coordinates of at
  most 256 bits from which \<open>epoint_set\<close> gives the point back.
\<close>

definition group_laws :: "'pt curve \<Rightarrow> int \<Rightarrow> 'pt \<Rightarrow> bool" where
  "group_laws C n G \<longleftrightarrow>
     0 < n
     \<and> (\<forall>a b. 0 \<le> a \<and> 0 \<le> b \<longrightarrow>
            ecurve_add C (ecurve_mult C a G) (ecurve_mult C b G) = ecurve_mult C (a + b) G)
     \<and> (\<forall>a b. 0 \<le> a \<and> 0 \<le> b \<longrightarrow>
            ecurve_mult C a (ecurve_mult C b G) = ecurve_mult C (a * b) G)
     \<and> (\<forall>a b. 0 \<le> a \<and> 0 \<le> b \<and> a mod n = b mod n \<longrightarrow>
            ecurve_mult C a G = ecurve_mult C b G)
     \<and> (\<forall>a. 0 \<le> a \<longrightarrow> point_at_infinity C (ecurve_mult C a G) = (a mod n = 0))
     \<and> (\<forall>a. 0 \<le> a \<and> a mod n \<noteq> 0 \<longrightarrow>
            (case epoint_get C (ecurve_mult C a G) of (x, y) \<Rightarrow>
               0 \<le> x \<and> x < 2 ^ 256 \<and> 0 \<le> y \<and> y < 2 ^ 256
               \<and> epoint_set C x y = Some (ecurve_mult C a G)))"

subsection \<open>SM3\<close>

text \<open>
  \<open>SM3.c\<close> is not among the sources.  The hash function \<open>SM3_256\<close>, from a message to its
  digest, is a parameter \<open>H\<close> of the model.
\<close>

type_synonym sm3 = "u8 list \<Rightarrow> u8 list"

text \<open>Modelled from the spec: the incremental interface of SM3 (section 2, "incremental
  init/absorb/finalize").  The state is the message absorbed so far; \<open>SM3_done\<close> is the
  digest of the whole.\<close>

definition SM3_init :: "u8 list" where
  "SM3_init = []"

definition SM3_process :: "u8 list \<Rightarrow> u8 list \<Rightarrow> nat \<Rightarrow> u8 list" where
  "SM3_process md buf len = md @ take len buf"

definition SM3_done :: "sm3 \<Rightarrow> u8 list \<Rightarrow> u8 list" where
  "SM3_done H md = H md"

section \<open>SM2 signature (SM2_sv.c, SM2_sv.h)\<close>

definition SM2_NUMWORD :: nat where
  "SM2_NUMWORD = 256 div 8"

datatype sm2_error =
    ERR_ECURVE_INIT | ERR_INFINITY_POINT | ERR_NOT_VALID_POINT | ERR_ORDER
  | ERR_NOT_VALID_ELEMENT | ERR_GENERATE_R | ERR_GENERATE_S | ERR_OUTRANGE_R
  | ERR_OUTRANGE_S | ERR_GENERATE_T | ERR_PUBKEY_INIT | ERR_DATA_MEMCMP
  | ERR_ARRAY_NULL | ERR_C3_MATCH

text \<open>The values of \<open>SM2_sv.h\<close>; the last two names belong to \<open>SM2_ENC.h\<close>, which is not
  among the sources, and have the values of section 6 of the specification.\<close>

fun error_code :: "sm2_error \<Rightarrow> nat" where
  "error_code ERR_ECURVE_INIT = 0x1"
| "error_code ERR_INFINITY_POINT = 0x2"
| "error_code ERR_NOT_VALID_POINT = 0x3"
| "error_code ERR_ORDER = 0x4"
| "error_code ERR_NOT_VALID_ELEMENT = 0x5"
| "error_code ERR_GENERATE_R = 0x6"
| "error_code ERR_GENERATE_S = 0x7"
| "error_code ERR_OUTRANGE_R = 0x8"
| "error_code ERR_OUTRANGE_S = 0x9"
| "error_code ERR_GENERATE_T = 0xA"
| "error_code ERR_PUBKEY_INIT = 0xB"
| "error_code ERR_DATA_MEMCMP = 0xC"
| "error_code ERR_ARRAY_NULL = 0x5"
| "error_code ERR_C3_MATCH = 0x6"

definition SM2_p :: "u8 list" where
  "SM2_p =
    [0xff, 0xff, 0xff, 0xfe, 0xff, 0xff, 0xff, 0xff, 0xff, 0xff, 0xff, 0xff, 0xff, 0xff, 0xff, 0xff,
     0xff, 0xff, 0xff, 0xff, 0x00, 0x00, 0x00, 0x00, 0xff, 0xff, 0xff, 0xff, 0xff, 0xff, 0xff, 0xff]"

definition SM2_a :: "u8 list" where
  "SM2_a =
    [0xff, 0xff, 0xff, 0xfe, 0xff, 0xff, 0xff, 0xff, 0xff, 0xff, 0xff, 0xff, 0xff, 0xff, 0xff, 0xff,
     0xff, 0xff, 0xff, 0xff, 0x00, 0x00, 0x00, 0x00, 0xff, 0xff, 0xff, 0xff, 0xff, 0xff, 0xff, 0xfc]"

definition SM2_b :: "u8 list" where
  "SM2_b =
    [0x28, 0xe9, 0xfa, 0x9e, 0x9d, 0x9f, 0x5e, 0x34, 0x4d, 0x5a, 0x9e, 0x4b, 0xcf, 0x65, 0x09, 0xa7,
     0xf3, 0x97, 0x89, 0xf5, 0x15, 0xab, 0x8f, 0x92, 0xdd, 0xbc, 0xbd, 0x41, 0x4d, 0x94, 0x0e, 0x93]"

definition SM2_Gx :: "u8 list" where
  "SM2_Gx =
    [0x32, 0xc4, 0xae, 0x2c, 0x1f, 0x19, 0x81, 0x19, 0x5f, 0x99, 0x04, 0x46, 0x6a, 0x39, 0xc9, 0x94,
     0x8f, 0xe3, 0x0b, 0xbf, 0xf2, 0x66, 0x0b, 0xe1, 0x71, 0x5a, 0x45, 0x89, 0x33, 0x4c, 0x74, 0xc7]"

definition SM2_Gy :: "u8 list" where
  "SM2_Gy =
    [0xbc, 0x37, 0x36, 0xa2, 0xf4, 0xf6, 0x77, 0x9c, 0x59, 0xbd, 0xce, 0xe3, 0x6b, 0x69, 0x21, 0x53,
     0xd0, 0xa9, 0x87, 0x7c, 0xc6, 0x2a, 0x47, 0x40, 0x02, 0xdf, 0x32, 0xe5, 0x21, 0x39, 0xf0, 0xa0]"

definition SM2_n :: "u8 list" where
  "SM2_n =
    [0xff, 0xff, 0xff, 0xfe, 0xff, 0xff, 0xff, 0xff, 0xff, 0xff, 0xff, 0xff, 0xff, 0xff, 0xff, 0xff,
     0x72, 0x03, 0xdf, 0x6b, 0x21, 0xc6, 0x05, 0x2b, 0x53, 0xbb, 0xf4, 0x09, 0x39, 0xd5, 0x41, 0x23]"

text \<open>The globals of \<open>SM2_sv.h\<close> after \<open>SM2_Init\<close>: \<open>Gx, Gy, p, a, b, n\<close> and the point \<open>G\<close>,
  with the operations of the curve that \<open>ecurve_init\<close> made active.\<close>

record 'pt sv_globals =
  sv_curve :: "'pt curve"
  sv_Gx :: int
  sv_Gy :: int
  sv_p :: int
  sv_a :: int
  sv_b :: int
  sv_n :: int
  sv_G :: 'pt

definition SM2_Init :: "'pt miracl \<Rightarrow> sm2_error + 'pt sv_globals" where
  "SM2_Init MIRACL =
     (let Gx = bytes_to_big SM2_NUMWORD SM2_Gx;
          Gy = bytes_to_big SM2_NUMWORD SM2_Gy;
          p = bytes_to_big SM2_NUMWORD SM2_p;
          a = bytes_to_big SM2_NUMWORD SM2_a;
          b = bytes_to_big SM2_NUMWORD SM2_b;
          n = bytes_to_big SM2_NUMWORD SM2_n;
          C = MIRACL a b p
      in case epoint_set C Gx Gy of
           None \<Rightarrow> Inl ERR_ECURVE_INIT
         | Some G \<Rightarrow>
             let nG = ecurve_mult C n G
             in if \<not> point_at_infinity C nG then Inl ERR_ORDER
                else Inr \<lparr>sv_curve = C, sv_Gx = Gx, sv_Gy = Gy, sv_p = p, sv_a = a, sv_b = b,
                          sv_n = n, sv_G = G\<rparr>)"

definition Test_Zero :: "int \<Rightarrow> bool" where
  "Test_Zero x = (if x = 0 then True else False)"

definition Test_n :: "'pt sv_globals \<Rightarrow> int \<Rightarrow> bool" where
  "Test_n g x = (if x = sv_n g then True else False)"

definition Test_Range :: "'pt sv_globals \<Rightarrow> int \<Rightarrow> bool" where
  "Test_Range g x =
     (let one = 1; decr_n = sv_n g - 1
      in if x < one \<or> x > decr_n then True else False)"

text \<open>
  The arrays \<open>ZA\<close>, \<open>rand\<close>, \<open>d\<close>, \<open>Px\<close>, \<open>Py\<close>, \<open>R\<close> and \<open>S\<close> hold \<open>SM2_NUMWORD\<close> bytes; the
  message is the list of its \<open>len\<close> bytes.  The result of \<open>SM2_Sign\<close> is an error, or
  the arrays \<open>R\<close> and \<open>S\<close> written on the return of 0.
\<close>

definition SM2_Sign ::
  "'pt miracl \<Rightarrow> sm3 \<Rightarrow> u8 list \<Rightarrow> u8 list \<Rightarrow> u8 list \<Rightarrow> u8 list \<Rightarrow> sm2_error + (u8 list \<times> u8 list)" where
  "SM2_Sign MIRACL H message ZA rand d =
     (case SM2_Init MIRACL of
        Inl i \<Rightarrow> Inl i
      | Inr g \<Rightarrow>
          let C = sv_curve g; n = sv_n g; G = sv_G g;
              dA = bytes_to_big SM2_NUMWORD d;
              M = take 32 ZA @ message;
              hash = H M;
              e = bytes_to_big 32 hash;
              k = bytes_to_big 32 rand;
              KG = ecurve_mult C k G;
              (KGx, KGy) = epoint_get C KG;
              r = e + KGx;
              (r, rem) = divide r n;
              rk = r + k
          in if Test_Zero r \<or> Test_n g rk then Inl ERR_GENERATE_R
             else
               let z1 = dA + 1;
                   z1 = xgcd z1 n;
                   z2 = r * dA;
                   (z2, rem) = divide z2 n;
                   z2 = k - z2;
                   z2 = z2 + n;
                   s = z1 * z2;
                   (s, rem) = divide s n
               in if Test_Zero s then Inl ERR_GENERATE_S
                  else Inr (big_to_bytes SM2_NUMWORD r, big_to_bytes SM2_NUMWORD s))"

definition SM2_Verify ::
  "'pt miracl \<Rightarrow> sm3 \<Rightarrow> u8 list \<Rightarrow> u8 list \<Rightarrow> u8 list \<Rightarrow> u8 list \<Rightarrow> u8 list \<Rightarrow> u8 list
    \<Rightarrow> sm2_error + unit" where
  "SM2_Verify MIRACL H message ZA Px Py R S =
     (case SM2_Init MIRACL of
        Inl i \<Rightarrow> Inl i
      | Inr g \<Rightarrow>
          let C = sv_curve g; n = sv_n g; G = sv_G g;
              PAx = bytes_to_big SM2_NUMWORD Px;
              PAy = bytes_to_big SM2_NUMWORD Py;
              r = bytes_to_big SM2_NUMWORD R;
              s = bytes_to_big SM2_NUMWORD S
          in case epoint_set C PAx PAy of
               None \<Rightarrow> Inl ERR_PUBKEY_INIT
             | Some PA \<Rightarrow>
                 if Test_Range g r then Inl ERR_OUTRANGE_R
                 else if Test_Range g s then Inl ERR_OUTRANGE_S
                 else
                   let M = take 32 ZA @ message;
                       hash = H M;
                       e = bytes_to_big 32 hash;
                       t = r + s;
                       (t, rem) = divide t n
                   in if Test_Zero t then Inl ERR_GENERATE_T
                      else
                        let sG = ecurve_mult C s G;
                            tPA = ecurve_mult C t PA;
                            tPA = ecurve_add C sG tPA;
                            (x1, y1) = epoint_get C tPA;
                            RR = e + x1;
                            (RR, rem) = divide RR n
                        in if RR = r then Inr () else Inl ERR_DATA_MEMCMP)"

text \<open>The hypothesis on MIRACL for \<open>SM2_sv.c\<close>: on the curve of the header's parameters,
  \<open>epoint_set\<close> accepts the base point of the header, and the group laws hold for it
  and the order \<open>n\<close> of the header.\<close>

definition sv_miracl_ok :: "'pt miracl \<Rightarrow> bool" where
  "sv_miracl_ok MIRACL \<longleftrightarrow>
     (let C = MIRACL (bytes_to_big SM2_NUMWORD SM2_a) (bytes_to_big SM2_NUMWORD SM2_b)
                (bytes_to_big SM2_NUMWORD SM2_p)
      in case epoint_set C (bytes_to_big SM2_NUMWORD SM2_Gx) (bytes_to_big SM2_NUMWORD SM2_Gy) of
           None \<Rightarrow> False
         | Some G \<Rightarrow> group_laws C (bytes_to_big SM2_NUMWORD SM2_n) G)"

subsection \<open>A stand-in for MIRACL\<close>

text \<open>
  For stating theorems at concrete inputs: the cyclic group of order \<open>n\<close>, each point
  written as its discrete logarithm to the base \<open>G\<close> (so \<open>G\<close> is 1 and the point at
  infinity is 0), with an injective relabelling of the points as coordinates that gives
  \<open>G\<close> the coordinates of the header.  It has the group structure that \<open>SM2_sv.c\<close> relies on;
  its coordinates are not those of the curve.
\<close>

definition toy_curve :: "int curve" where
  "toy_curve =
     (let p = bytes_to_big SM2_NUMWORD SM2_p; n = bytes_to_big SM2_NUMWORD SM2_n;
          Gx = bytes_to_big SM2_NUMWORD SM2_Gx; Gy = bytes_to_big SM2_NUMWORD SM2_Gy
      in \<lparr>epoint_init = 0,
          epoint_set = (\<lambda>x y.
            if y = Gy \<and> 0 \<le> x \<and> x < p
            then (let i = (x - Gx + 1) mod p in if 1 \<le> i \<and> i < n then Some i else None)
            else None),
          epoint_get = (\<lambda>P. if P = 0 then (0, 0) else ((Gx + P - 1) mod p, Gy)),
          ecurve_mult = (\<lambda>k P. (k * P) mod n),
          ecurve_add = (\<lambda>P Q. (P + Q) mod n),
          point_at_infinity = (\<lambda>P. P = 0)\<rparr>)"

definition toy_miracl :: "int miracl" where
  "toy_miracl = (\<lambda>a b p. toy_curve)"

text \<open>A stand-in for SM3: 32 bytes that depend on the message.\<close>

definition toy_sm3 :: sm3 where
  "toy_sm3 m = replicate 28 0x5a @ big_to_bytes 4 (int (length m) + 256 * foldl (\<lambda>x c. (x * 31 + uint c) mod 65521) 7 m)"



text \<open>The globals that \<open>SM2_Init\<close> leaves with this stand-in.\<close>

definition toy_globals :: "int sv_globals" where
  "toy_globals =
     \<lparr>sv_curve = toy_curve,
      sv_Gx = bytes_to_big SM2_NUMWORD SM2_Gx, sv_Gy = bytes_to_big SM2_NUMWORD SM2_Gy,
      sv_p = bytes_to_big SM2_NUMWORD SM2_p, sv_a = bytes_to_big SM2_NUMWORD SM2_a,
      sv_b = bytes_to_big SM2_NUMWORD SM2_b, sv_n = bytes_to_big SM2_NUMWORD SM2_n,
      sv_G = 1\<rparr>"

section \<open>SM2 public-key encryption (SM2_ENC.c, KDF.h)\<close>

text \<open>
  \<open>SM2_ENC.h\<close> is not among the sources.  Its curve parameters are those of \<open>SM2_sv.h\<close>
  (section 6 of the specification gives one set for the whole system), and its error
  names are constructors of \<open>sm2_error\<close>.
\<close>

text \<open>Modelled from the spec: the cofactor \<open>SM2_h\<close> of \<open>SM2_ENC.h\<close> (section 6, \<open>h = 1\<close>), as
  the 32 big-endian bytes that \<open>SM2_Init\<close> reads.\<close>

definition SM2_h :: "u8 list" where
  "SM2_h = replicate 31 0 @ [1]"

definition SM2_NUMBITS :: nat where
  "SM2_NUMBITS = 256"

subsection \<open>Arrays addressed through a pointer and an offset\<close>

text \<open>
  \<open>memcpy(dst + off, src, n)\<close> and a read of \<open>n\<close> bytes at \<open>buf + off\<close>.  Both are undefined
  in C when they leave the array, and \<open>None\<close> here.
\<close>

definition memcpy_at :: "u8 list \<Rightarrow> int \<Rightarrow> u8 list \<Rightarrow> nat \<Rightarrow> u8 list option" where
  "memcpy_at dst off src n =
     (if 0 \<le> off \<and> nat off + n \<le> length dst \<and> n \<le> length src
      then Some (take (nat off) dst @ take n src @ drop (nat off + n) dst)
      else None)"

definition read_bytes :: "u8 list \<Rightarrow> int \<Rightarrow> int \<Rightarrow> u8 list option" where
  "read_bytes buf off n =
     (if 0 \<le> off \<and> 0 \<le> n \<and> nat off + nat n \<le> length buf
      then Some (take (nat n) (drop (nat off) buf))
      else None)"

subsection \<open>\<open>SM3_KDF\<close> (KDF.h)\<close>

text \<open>The counter \<open>ct[4]\<close> and the nested tests that step it.\<close>

definition ct_next :: "u8 list \<Rightarrow> u8 list" where
  "ct_next ct =
     (if ct ! 3 = 0xff then
        (if ct ! 2 = 0xff then
           (if ct ! 1 = 0xff then [ct ! 0 + 1, 0, 0, 0]
            else [ct ! 0, ct ! 1 + 1, 0, 0])
         else [ct ! 0, ct ! 1, ct ! 2 + 1, 0])
      else [ct ! 0, ct ! 1, ct ! 2, ct ! 3 + 1])"

text \<open>
  The loop \<open>for (i = 1; i < t; i++)\<close>.  \<open>K\<close> is the array that the pointer \<open>K\<close> of the source
  points into, at the offset \<open>off\<close>.  The result is the counter and the array after the loop.
\<close>

function SM3_KDF_loop ::
  "sm3 \<Rightarrow> u8 list \<Rightarrow> nat \<Rightarrow> int \<Rightarrow> int \<Rightarrow> u8 list \<Rightarrow> u8 list \<Rightarrow> int \<Rightarrow> (u8 list \<times> u8 list) option" where
  "SM3_KDF_loop H Z zlen t i ct K off =
     (if i < t then
        (let md = SM3_init;
             md = SM3_process md Z zlen;
             md = SM3_process md ct 4;
             Ha = SM3_done H md
         in case memcpy_at K (off + int SM2_NUMWORD * (i - 1)) Ha SM2_NUMWORD of
              None \<Rightarrow> None
            | Some K' \<Rightarrow> SM3_KDF_loop H Z zlen t (i + 1) (ct_next ct) K' off)
      else Some (ct, K))"
  by pat_completeness auto
termination
  by (relation "measure (\<lambda>(H, Z, zlen, t, i, ct, K, off). nat (t - i))") auto

declare SM3_KDF_loop.simps [simp del]

text \<open>
  \<open>zlen\<close> and \<open>klen\<close> are \<open>unsigned short\<close>: numbers below 65536, so that \<open>klen * 8\<close> stays
  within \<open>unsigned int\<close>.  \<open>t - 1\<close> is computed in \<open>int\<close> and is -1 when \<open>klen\<close> is 0.
\<close>

definition SM3_KDF :: "sm3 \<Rightarrow> u8 list \<Rightarrow> nat \<Rightarrow> nat \<Rightarrow> u8 list \<Rightarrow> int \<Rightarrow> u8 list option" where
  "SM3_KDF H Z zlen klen K off =
     (let bitklen = klen * 8;
          t = (if bitklen mod SM2_NUMBITS \<noteq> 0 then bitklen div SM2_NUMBITS + 1
               else bitklen div SM2_NUMBITS)
      in case SM3_KDF_loop H Z zlen (int t) 1 [0, 0, 0, 1] K off of
           None \<Rightarrow> None
         | Some (ct, K) \<Rightarrow>
             let md = SM3_init;
                 md = SM3_process md Z zlen;
                 md = SM3_process md ct 4;
                 Ha = SM3_done H md
             in if bitklen mod SM2_NUMBITS \<noteq> 0 then
                  (let j = (bitklen - SM2_NUMBITS * (bitklen div SM2_NUMBITS)) div 8
                   in memcpy_at K (off + int SM2_NUMWORD * (int t - 1)) Ha j)
                else memcpy_at K (off + int SM2_NUMWORD * (int t - 1)) Ha SM2_NUMWORD)"

text \<open>The specification's KDF (section 4.1): \<open>SM3(Z || ct)\<close> for \<open>ct = 1, 2, ...,
  \<lceil>klen * 8 / 256\<rceil>\<close> as 32-bit big-endian counters, truncated to \<open>klen\<close> bytes.\<close>

definition KDF_spec :: "sm3 \<Rightarrow> u8 list \<Rightarrow> nat \<Rightarrow> u8 list" where
  "KDF_spec H Z klen =
     take klen (concat (map (\<lambda>ct. H (Z @ big_to_bytes 4 (int ct)))
                         [1 ..< (klen * 8 + 255) div 256 + 1]))"

subsection \<open>The globals and \<open>SM2_Init\<close> of SM2_ENC.c\<close>

record 'pt enc_globals =
  enc_curve :: "'pt curve"
  para_p :: int
  para_a :: int
  para_b :: int
  para_n :: int
  para_Gx :: int
  para_Gy :: int
  para_h :: int
  enc_G :: 'pt

text \<open>\<open>SM2_Init\<close> of SM2_ENC.c (SM2_sv.c has a function of the same name).\<close>

definition ENC_SM2_Init :: "'pt miracl \<Rightarrow> sm2_error + 'pt enc_globals" where
  "ENC_SM2_Init MIRACL =
     (let p = bytes_to_big SM2_NUMWORD SM2_p;
          a = bytes_to_big SM2_NUMWORD SM2_a;
          b = bytes_to_big SM2_NUMWORD SM2_b;
          n = bytes_to_big SM2_NUMWORD SM2_n;
          Gx = bytes_to_big SM2_NUMWORD SM2_Gx;
          Gy = bytes_to_big SM2_NUMWORD SM2_Gy;
          h = bytes_to_big SM2_NUMWORD SM2_h;
          C = MIRACL a b p
      in case epoint_set C Gx Gy of
           None \<Rightarrow> Inl ERR_ECURVE_INIT
         | Some G \<Rightarrow>
             let nG = ecurve_mult C n G
             in if \<not> point_at_infinity C nG then Inl ERR_ORDER
                else Inr \<lparr>enc_curve = C, para_p = p, para_a = a, para_b = b, para_n = n,
                          para_Gx = Gx, para_Gy = Gy, para_h = h, enc_G = G\<rparr>)"

definition Test_Point :: "'pt enc_globals \<Rightarrow> 'pt \<Rightarrow> sm2_error + unit" where
  "Test_Point g point =
     (let (x, y) = epoint_get (enc_curve g) point;
          x_3 = power_mod x 3 (para_p g);
          x = x * para_a g;
          (x, tmp) = divide x (para_p g);
          x = x_3 + x;
          x = x + para_b g;
          (x, tmp) = divide x (para_p g);
          y = power_mod y 2 (para_p g)
      in if x \<noteq> y then Inl ERR_NOT_VALID_POINT else Inr ())"

text \<open>\<open>Test_Null(array + off, len)\<close>: 1 when the \<open>len\<close> bytes are all zero, 0 at the first
  byte that is not.\<close>

function Test_Null_loop :: "u8 list \<Rightarrow> int \<Rightarrow> int \<Rightarrow> int \<Rightarrow> int option" where
  "Test_Null_loop array off len i =
     (if i < len then
        (case read_at array (off + i) of
           None \<Rightarrow> None
         | Some x \<Rightarrow> if x \<noteq> 0x00 then Some 0 else Test_Null_loop array off len (i + 1))
      else Some 1)"
  by pat_completeness auto
termination
  by (relation "measure (\<lambda>(array, off, len, i). nat (len - i))") auto

declare Test_Null_loop.simps [simp del]

definition Test_Null :: "u8 list \<Rightarrow> int \<Rightarrow> int \<Rightarrow> int option" where
  "Test_Null array off len = Test_Null_loop array off len 0"

subsection \<open>\<open>SM2_Encrypt\<close>\<close>

text \<open>The loop \<open>for (i = 0; i < klen; i++) C[SM2_NUMWORD * 3 + i] = M[i] ^ C[SM2_NUMWORD * 3 + i]\<close>.\<close>

function Encrypt_xor_loop :: "u8 list \<Rightarrow> int \<Rightarrow> u8 list \<Rightarrow> int \<Rightarrow> u8 list option" where
  "Encrypt_xor_loop M klen C i =
     (if i < klen then
        (case read_at M i of None \<Rightarrow> None | Some m \<Rightarrow>
         case read_at C (int SM2_NUMWORD * 3 + i) of None \<Rightarrow> None | Some c \<Rightarrow>
         case write_at C (int SM2_NUMWORD * 3 + i) (m XOR c) of None \<Rightarrow> None | Some C' \<Rightarrow>
           Encrypt_xor_loop M klen C' (i + 1))
      else Some C)"
  by pat_completeness auto
termination
  by (relation "measure (\<lambda>(M, klen, C, i). nat (klen - i))") auto

declare Encrypt_xor_loop.simps [simp del]

text \<open>
  \<open>C\<close> is the caller's output array with its content at the call.  The result is \<open>None\<close>
  when an access leaves an array, and otherwise the value returned (\<open>Inr ()\<close> for 0) with
  the content of \<open>C\<close> at the return.  \<open>SM3_KDF\<close> takes its \<open>klen\<close> as an \<open>unsigned short\<close>:
  the \<open>int\<close> is converted modulo 65536.
\<close>

definition SM2_Encrypt ::
  "'pt enc_globals \<Rightarrow> sm3 \<Rightarrow> u8 list \<Rightarrow> 'pt \<Rightarrow> u8 list \<Rightarrow> int \<Rightarrow> u8 list
    \<Rightarrow> ((sm2_error + unit) \<times> u8 list) option" where
  "SM2_Encrypt g H randK pubKey M klen C =
     (let E = enc_curve g;
          rand = bytes_to_big SM2_NUMWORD randK;
          C1 = ecurve_mult E rand (enc_G g);
          (C1x, C1y) = epoint_get E C1
      in case memcpy_at C 0 (big_to_bytes SM2_NUMWORD C1x) SM2_NUMWORD of None \<Rightarrow> None | Some C \<Rightarrow>
         case memcpy_at C (int SM2_NUMWORD) (big_to_bytes SM2_NUMWORD C1y) SM2_NUMWORD of
           None \<Rightarrow> None | Some C \<Rightarrow>
         let S = ecurve_mult E (para_h g) pubKey
         in if point_at_infinity E S then Some (Inl ERR_INFINITY_POINT, C)
            else
              let kP = ecurve_mult E rand pubKey;
                  (x2, y2) = epoint_get E kP;
                  x2y2 = big_to_bytes SM2_NUMWORD x2 @ big_to_bytes SM2_NUMWORD y2
              in case SM3_KDF H x2y2 (SM2_NUMWORD * 2) (nat (klen mod 65536)) C (int SM2_NUMWORD * 3) of
                   None \<Rightarrow> None | Some C \<Rightarrow>
                 case Test_Null C (int SM2_NUMWORD * 3) klen of None \<Rightarrow> None | Some nul \<Rightarrow>
                 if nul \<noteq> 0 then Some (Inl ERR_ARRAY_NULL, C)
                 else
                   case Encrypt_xor_loop M klen C 0 of None \<Rightarrow> None | Some C \<Rightarrow>
                   case read_bytes M 0 klen of None \<Rightarrow> None | Some m \<Rightarrow>
                   let md = SM3_init;
                       md = SM3_process md x2y2 SM2_NUMWORD;
                       md = SM3_process md m (nat klen);
                       md = SM3_process md (drop SM2_NUMWORD x2y2) SM2_NUMWORD
                   in case memcpy_at C (int SM2_NUMWORD * 2) (SM3_done H md) SM2_NUMWORD of
                        None \<Rightarrow> None
                      | Some C \<Rightarrow> Some (Inr (), C))"

subsection \<open>\<open>SM2_Decrypt\<close>\<close>

text \<open>The loop \<open>for (i = 0; i < Clen - SM2_NUMWORD * 3; i++) M[i] = M[i] ^ C[SM2_NUMWORD * 3 + i]\<close>;
  \<open>len\<close> stands for \<open>Clen - SM2_NUMWORD * 3\<close>.\<close>

function Decrypt_xor_loop :: "u8 list \<Rightarrow> int \<Rightarrow> u8 list \<Rightarrow> int \<Rightarrow> u8 list option" where
  "Decrypt_xor_loop C len M i =
     (if i < len then
        (case read_at M i of None \<Rightarrow> None | Some m \<Rightarrow>
         case read_at C (int SM2_NUMWORD * 3 + i) of None \<Rightarrow> None | Some c \<Rightarrow>
         case write_at M i (m XOR c) of None \<Rightarrow> None | Some M' \<Rightarrow>
           Decrypt_xor_loop C len M' (i + 1))
      else Some M)"
  by pat_completeness auto
termination
  by (relation "measure (\<lambda>(C, len, M, i). nat (len - i))") auto

declare Decrypt_xor_loop.simps [simp del]

text \<open>
  \<open>M\<close> is the caller's output array with its content at the call; the result carries its
  content at the return, also when the value returned is an error.  The value of
  \<open>epoint_set\<close> is not tested: when it refuses the pair, \<open>C1\<close> stays the point that
  \<open>epoint_init\<close> made.
\<close>

definition SM2_Decrypt ::
  "'pt enc_globals \<Rightarrow> sm3 \<Rightarrow> int \<Rightarrow> u8 list \<Rightarrow> int \<Rightarrow> u8 list
    \<Rightarrow> ((sm2_error + unit) \<times> u8 list) option" where
  "SM2_Decrypt g H dB C Clen M =
     (let E = enc_curve g
      in case read_bytes C 0 (int SM2_NUMWORD) of None \<Rightarrow> None | Some c1x \<Rightarrow>
         case read_bytes C (int SM2_NUMWORD) (int SM2_NUMWORD) of None \<Rightarrow> None | Some c1y \<Rightarrow>
         let C1x = bytes_to_big SM2_NUMWORD c1x;
             C1y = bytes_to_big SM2_NUMWORD c1y;
             C1 = (case epoint_set E C1x C1y of None \<Rightarrow> epoint_init E | Some P \<Rightarrow> P)
         in case Test_Point g C1 of
              Inl i \<Rightarrow> Some (Inl i, M)
            | Inr u \<Rightarrow>
                let S = ecurve_mult E (para_h g) C1
                in if point_at_infinity E S then Some (Inl ERR_INFINITY_POINT, M)
                   else
                     let dBC1 = ecurve_mult E dB C1;
                         (x2, y2) = epoint_get E dBC1;
                         x2y2 = big_to_bytes SM2_NUMWORD x2 @ big_to_bytes SM2_NUMWORD y2;
                         len = Clen - int SM2_NUMWORD * 3
                     in case SM3_KDF H x2y2 (SM2_NUMWORD * 2) (nat (len mod 65536)) M 0 of
                          None \<Rightarrow> None | Some M \<Rightarrow>
                        case Test_Null M 0 len of None \<Rightarrow> None | Some nul \<Rightarrow>
                        if nul \<noteq> 0 then Some (Inl ERR_ARRAY_NULL, M)
                        else
                          case Decrypt_xor_loop C len M 0 of None \<Rightarrow> None | Some M \<Rightarrow>
                          case read_bytes M 0 len of None \<Rightarrow> None | Some m \<Rightarrow>
                          let md = SM3_init;
                              md = SM3_process md x2y2 SM2_NUMWORD;
                              md = SM3_process md m (nat len);
                              md = SM3_process md (drop SM2_NUMWORD x2y2) SM2_NUMWORD;
                              hash = SM3_done H md
                          in case read_bytes C (int SM2_NUMWORD * 2) (int SM2_NUMWORD) of
                               None \<Rightarrow> None
                             | Some c3 \<Rightarrow>
                                 if take SM2_NUMWORD hash \<noteq> c3 then Some (Inl ERR_C3_MATCH, M)
                                 else Some (Inr (), M))"

text \<open>The globals that \<open>SM2_Init\<close> of SM2_ENC.c leaves with the stand-in for MIRACL.\<close>

definition toy_enc_globals :: "int enc_globals" where
  "toy_enc_globals =
     \<lparr>enc_curve = toy_curve,
      para_p = bytes_to_big SM2_NUMWORD SM2_p, para_a = bytes_to_big SM2_NUMWORD SM2_a,
      para_b = bytes_to_big SM2_NUMWORD SM2_b, para_n = bytes_to_big SM2_NUMWORD SM2_n,
      para_Gx = bytes_to_big SM2_NUMWORD SM2_Gx, para_Gy = bytes_to_big SM2_NUMWORD SM2_Gy,
      para_h = bytes_to_big SM2_NUMWORD SM2_h, enc_G = 1\<rparr>"

section \<open>Properties of the LFSR\<close>

lemma mask31: "(0x7fffffff :: u32) = mask 31"
  by (simp add: mask_eq_exp_minus_1)

lemma drop_bit_31_iff: "drop_bit 31 (c::u32) \<noteq> 0 \<longleftrightarrow> 2 ^ 31 \<le> unat c"
proof -
  have "drop_bit 31 c = 0 \<longleftrightarrow> unat (drop_bit 31 c) = 0"
    by (simp add: unat_eq_0)
  also have "\<dots> \<longleftrightarrow> unat c div 2 ^ 31 = 0"
    by (simp add: drop_bit_eq_div unat_div)
  also have "\<dots> \<longleftrightarrow> unat c < 2 ^ 31"
    by (simp add: div_eq_0_iff)
  finally show ?thesis by auto
qed

lemma unat_and_mask31: "unat ((c::u32) AND 0x7fffffff) = unat c mod 2 ^ 31"
  by (simp add: mask31 take_bit_eq_mod unat_mod flip: take_bit_eq_mask)

lemma AddMod_unat:
  assumes "a \<le> 0x7fffffff" and "b \<le> 0x7fffffff"
  shows "unat (AddMod a b) =
    (if 2 ^ 31 \<le> unat a + unat b then unat a + unat b - (2 ^ 31 - 1) else unat a + unat b)"
proof -
  have a: "unat a \<le> 2 ^ 31 - 1" and b: "unat b \<le> 2 ^ 31 - 1"
    using assms by (simp_all add: word_le_nat_alt)
  have c: "unat (a + b) = unat a + unat b"
    using a b by (simp add: unat_word_ariths)
  show ?thesis
  proof (cases "2 ^ 31 \<le> unat a + unat b")
    case True
    have "unat ((a + b) AND 0x7fffffff) = (unat a + unat b) mod 2 ^ 31"
      by (simp add: unat_and_mask31 c)
    also have "\<dots> = unat a + unat b - 2 ^ 31"
      using True a b by (simp add: mod_if)
    finally have d: "unat ((a + b) AND 0x7fffffff) = unat a + unat b - 2 ^ 31" .
    have "unat (((a + b) AND 0x7fffffff) + 1) = unat a + unat b - 2 ^ 31 + 1"
      using d a b by (simp add: unat_word_ariths)
    then show ?thesis
      using True by (simp add: AddMod_def Let_def drop_bit_31_iff c)
  next
    case False
    then show ?thesis
      by (simp add: AddMod_def Let_def drop_bit_31_iff c)
  qed
qed

lemma length_LFSR_shift [simp]: "length (LFSR_shift i S) = length S"
  by (induction i S rule: LFSR_shift.induct) (subst LFSR_shift.simps, simp)

lemma nth_LFSR_shift:
  "length S = 16 \<Longrightarrow> j < 16 \<Longrightarrow>
   LFSR_shift i S ! j = (if i \<le> j \<and> j < 15 then S ! (j + 1) else S ! j)"
proof (induction i S rule: LFSR_shift.induct)
  case (1 i S)
  show ?case
  proof (cases "i < 15")
    case True
    have "LFSR_shift i S ! j = LFSR_shift (i + 1) (S[i := S ! (i + 1)]) ! j"
      using True by (subst LFSR_shift.simps) simp
    also have "\<dots> = (if i + 1 \<le> j \<and> j < 15 then (S[i := S ! (i + 1)]) ! (j + 1)
                      else (S[i := S ! (i + 1)]) ! j)"
      using "1.IH" [OF True] "1.prems" by simp
    also have "\<dots> = (if i \<le> j \<and> j < 15 then S ! (j + 1) else S ! j)"
      using "1.prems" True by (auto simp: nth_list_update)
    finally show ?thesis .
  next
    case False
    then show ?thesis by (subst LFSR_shift.simps) auto
  qed
qed

lemma PowMod_le: "PowMod x k \<le> 0x7fffffff"
  unfolding PowMod_def by (simp add: word_and_le1)

lemma AddMod_le:
  assumes "a \<le> 0x7fffffff" and "b \<le> 0x7fffffff"
  shows "AddMod a b \<le> 0x7fffffff"
proof -
  have a: "unat a \<le> 2 ^ 31 - 1" and b: "unat b \<le> 2 ^ 31 - 1"
    using assms by (simp_all add: word_le_nat_alt)
  have "unat (AddMod a b) \<le> 2 ^ 31 - 1"
    using a b unfolding AddMod_unat [OF assms] by (simp split: if_splits, arith)
  then show ?thesis by (simp add: word_le_nat_alt)
qed

lemma AddMod_cong:
  assumes "a \<le> 0x7fffffff" and "b \<le> 0x7fffffff"
  shows "unat (AddMod a b) mod (2 ^ 31 - 1) = (unat a + unat b) mod (2 ^ 31 - 1)"
proof (cases "(2::nat) ^ 31 \<le> unat a + unat b")
  case True
  then have "unat a + unat b = (unat a + unat b - (2 ^ 31 - 1)) + (2 ^ 31 - 1)"
    by simp
  then have "(unat a + unat b) mod (2 ^ 31 - 1) = (unat a + unat b - (2 ^ 31 - 1)) mod (2 ^ 31 - 1)"
    by (metis mod_add_self2)
  then show ?thesis using True by (simp add: AddMod_unat [OF assms])
next
  case False
  then show ?thesis by (simp add: AddMod_unat [OF assms])
qed

lemma drop_bit_1_le: "drop_bit 1 (W::u32) \<le> 0x7fffffff"
proof -
  have "unat (drop_bit 1 W) = unat W div 2"
    by (simp add: drop_bit_eq_div unat_div)
  moreover have "unat W < 2 ^ 32"
    using unsigned_less [of W] by simp
  ultimately have "unat (drop_bit 1 W) \<le> 2 ^ 31 - 1" by simp
  then show ?thesis by (simp add: word_le_nat_alt)
qed

lemma lfsr_inv_nth: "lfsr_inv S \<Longrightarrow> i < 16 \<Longrightarrow> 1 \<le> S ! i \<and> S ! i \<le> 0x7fffffff"
  by (simp add: lfsr_inv_def)

lemma LFSR_feedback_le: "lfsr_inv S \<Longrightarrow> LFSR_feedback S \<le> 0x7fffffff"
  unfolding LFSR_feedback_def Let_def
  by (intro AddMod_le PowMod_le) (simp add: lfsr_inv_nth)

lemma LFSR_step_nth:
  assumes "length S = 16" and "j < 16"
  shows "((LFSR_shift 0 S)[15 := new_cell v]) ! j = (if j < 15 then S ! (j + 1) else new_cell v)"
  using assms by (simp add: nth_list_update nth_LFSR_shift)

lemma LFSRWithInitMode_eq:
  "length S = 16 \<Longrightarrow>
   LFSRWithInitMode S u = (LFSR_shift 0 S)[15 := new_cell (AddMod (LFSR_feedback S) u)]"
  by (simp add: LFSRWithInitMode_def Let_def new_cell_def)

lemma LFSRWithWorkMode_eq:
  "length S = 16 \<Longrightarrow>
   LFSRWithWorkMode S = (LFSR_shift 0 S)[15 := new_cell (LFSR_feedback S)]"
  by (simp add: LFSRWithWorkMode_def Let_def new_cell_def)

lemma lfsr_inv_step:
  assumes "lfsr_inv S" and "v \<le> 0x7fffffff"
  shows "lfsr_inv ((LFSR_shift 0 S)[15 := new_cell v])"
proof -
  have len: "length S = 16" using assms(1) by (simp add: lfsr_inv_def)
  have nc: "1 \<le> new_cell v \<and> new_cell v \<le> 0x7fffffff"
    using assms(2) by (auto simp: new_cell_def word_le_nat_alt unat_gt_0 Suc_le_eq)
  have "1 \<le> x \<and> x \<le> 0x7fffffff" if "x \<in> set ((LFSR_shift 0 S)[15 := new_cell v])" for x
  proof -
    from that obtain j where j: "j < 16" and x: "x = ((LFSR_shift 0 S)[15 := new_cell v]) ! j"
      using len by (auto simp: in_set_conv_nth)
    show ?thesis
      using lfsr_inv_nth [OF assms(1), of "j + 1"] nc j
      unfolding x LFSR_step_nth [OF len j] by auto
  qed
  then show ?thesis using len by (simp add: lfsr_inv_def)
qed

lemma AddMod_cong_step:
  assumes "a \<le> 0x7fffffff" and "b \<le> 0x7fffffff"
    and "unat a mod (2 ^ 31 - 1) = A mod (2 ^ 31 - 1)"
  shows "unat (AddMod a b) mod (2 ^ 31 - 1) = (A + unat b) mod (2 ^ 31 - 1)"
proof -
  have "unat (AddMod a b) mod (2 ^ 31 - 1) = (unat a + unat b) mod (2 ^ 31 - 1)"
    by (rule AddMod_cong [OF assms(1,2)])
  also have "\<dots> = (unat a mod (2 ^ 31 - 1) + unat b) mod (2 ^ 31 - 1)"
    by (simp add: mod_add_left_eq)
  also have "\<dots> = (A + unat b) mod (2 ^ 31 - 1)"
    unfolding assms(3) by (simp add: mod_add_left_eq)
  finally show ?thesis .
qed

lemma LFSR_feedback_cong:
  assumes "lfsr_inv S"
  shows "unat (LFSR_feedback S) mod (2 ^ 31 - 1) =
    (unat (S ! 0) + unat (PowMod (S ! 15) 15) + unat (PowMod (S ! 13) 17)
      + unat (PowMod (S ! 10) 21) + unat (PowMod (S ! 4) 20) + unat (PowMod (S ! 0) 8))
    mod (2 ^ 31 - 1)"
proof -
  have s0: "S ! 0 \<le> 0x7fffffff"
    using lfsr_inv_nth [OF assms, of 0] by simp
  note le = AddMod_le PowMod_le s0
  show ?thesis
    unfolding LFSR_feedback_def Let_def
    by (intro AddMod_cong_step le refl)
qed


text \<open>
  Claim C7.  A step of the LFSR, in initialisation mode (with the injected word \<open>u = W >> 1\<close>
  that \<open>ZUC_Init\<close> passes) and in working mode, keeps every one of the sixteen cells in
  \<open>[1, 2^31 - 1]\<close>.  The cell written to \<open>s15\<close> is the feedback value, replaced by
  \<open>2^31 - 1\<close> when it is zero, and the feedback value is a sum modulo \<open>2^31 - 1\<close> of the
  six terms.
\<close>

theorem LFSR_step_invariant:
  assumes "lfsr_inv S"
  shows "lfsr_inv (LFSRWithInitMode S (drop_bit 1 W)) \<and> lfsr_inv (LFSRWithWorkMode S)
    \<and> LFSRWithInitMode S (drop_bit 1 W) ! 15 =
        (let v = AddMod (LFSR_feedback S) (drop_bit 1 W) in if v = 0 then 0x7fffffff else v)
    \<and> LFSRWithWorkMode S ! 15 =
        (let v = LFSR_feedback S in if v = 0 then 0x7fffffff else v)
    \<and> unat (LFSR_feedback S) mod (2 ^ 31 - 1) =
        (unat (S ! 0) + unat (PowMod (S ! 15) 15) + unat (PowMod (S ! 13) 17)
          + unat (PowMod (S ! 10) 21) + unat (PowMod (S ! 4) 20) + unat (PowMod (S ! 0) 8))
        mod (2 ^ 31 - 1)
    \<and> unat (AddMod (LFSR_feedback S) (drop_bit 1 W)) mod (2 ^ 31 - 1) =
        (unat (LFSR_feedback S) + unat (drop_bit 1 W)) mod (2 ^ 31 - 1)"
proof -
  have len: "length S = 16" using assms by (simp add: lfsr_inv_def)
  have i: "lfsr_inv (LFSRWithInitMode S (drop_bit 1 W))"
    unfolding LFSRWithInitMode_eq [OF len]
    by (intro lfsr_inv_step assms AddMod_le LFSR_feedback_le drop_bit_1_le)
  have w: "lfsr_inv (LFSRWithWorkMode S)"
    unfolding LFSRWithWorkMode_eq [OF len]
    by (intro lfsr_inv_step assms LFSR_feedback_le)
  have i15: "LFSRWithInitMode S (drop_bit 1 W) ! 15 =
      (let v = AddMod (LFSR_feedback S) (drop_bit 1 W) in if v = 0 then 0x7fffffff else v)"
    unfolding LFSRWithInitMode_eq [OF len] using len by (simp add: new_cell_def Let_def)
  have w15: "LFSRWithWorkMode S ! 15 =
      (let v = LFSR_feedback S in if v = 0 then 0x7fffffff else v)"
    unfolding LFSRWithWorkMode_eq [OF len] using len by (simp add: new_cell_def Let_def)
  have c: "unat (AddMod (LFSR_feedback S) (drop_bit 1 W)) mod (2 ^ 31 - 1) =
        (unat (LFSR_feedback S) + unat (drop_bit 1 W)) mod (2 ^ 31 - 1)"
    by (rule AddMod_cong [OF LFSR_feedback_le [OF assms] drop_bit_1_le])
  show ?thesis
    by (intro conjI i w i15 w15 c LFSR_feedback_cong [OF assms])
qed

theorem LFSR_step_invariant_witness:
  "lfsr_inv [1, 2, 3, 4, 5, 6, 7, 8, 9, 10, 11, 12, 13, 14, 15, 0x7fffffff]
   \<and> lfsr_inv (LFSRWithInitMode [1, 2, 3, 4, 5, 6, 7, 8, 9, 10, 11, 12, 13, 14, 15, 0x7fffffff]
        (drop_bit 1 0xfffffffe))
   \<and> lfsr_inv (LFSRWithWorkMode [1, 2, 3, 4, 5, 6, 7, 8, 9, 10, 11, 12, 13, 14, 15, 0x7fffffff])"
proof -
  have h: "lfsr_inv [1, 2, 3, 4, 5, 6, 7, 8, 9, 10, 11, 12, 13, 14, 15, 0x7fffffff]"
    by (simp add: lfsr_inv_def)
  note t = LFSR_step_invariant [OF h, of "0xfffffffe"]
  show ?thesis
    by (intro conjI h t [THEN conjunct1] t [THEN conjunct2, THEN conjunct1])
qed


section \<open>128-EEA3 applied twice\<close>

lemma length_ZUC_Work_loop:
  "length (ZUC_Work_loop T i n st ks) = length ks + nat (n - i)"
proof (induction T i n st ks rule: ZUC_Work_loop.induct)
  case (1 T i n st ks)
  show ?case
  proof (cases "i < n")
    case True
    obtain S X R where st: "st = (S, X, R)" by (cases st)
    obtain W R' where f: "F T (BR S) R = (W, R')" by (cases "F T (BR S) R")
    have "length (ZUC_Work_loop T (i + 1) n (LFSRWithWorkMode S, BR S, R') (ks @ [W XOR BR S ! 3]))
        = length (ks @ [W XOR BR S ! 3]) + nat (n - (i + 1))"
      using "1.IH" [OF True st [symmetric] refl refl refl f [symmetric] refl refl] .
    then show ?thesis
      using True by (subst ZUC_Work_loop.simps) (simp add: st f Let_def)
  next
    case False
    then show ?thesis by (subst ZUC_Work_loop.simps) simp
  qed
qed

lemma length_ZUC_GenKeyStream [simp]: "length (ZUC_GenKeyStream T k iv n) = nat n"
  by (simp add: ZUC_GenKeyStream_def ZUC_Work_def Let_def length_ZUC_Work_loop split: prod.splits)

lemma c_div_nonneg: "0 \<le> a \<Longrightarrow> 0 < b \<Longrightarrow> c_div a b = a div b"
  by (cases "a = 0") (simp_all add: c_div_def)

lemma c_rem_nonneg: "0 \<le> a \<Longrightarrow> 0 < b \<Longrightarrow> c_rem a b = a mod b"
  by (simp add: c_rem_def c_div_nonneg minus_mult_div_eq_mod)

lemma EEA3_xor_loop_Some:
  assumes "0 \<le> i" and "L \<le> int (length IBS)" and "L \<le> int (length k)" and "L \<le> int (length OBS)"
  shows "\<exists>OBS'. EEA3_xor_loop i L IBS k OBS = Some OBS' \<and> length OBS' = length OBS
    \<and> (\<forall>j < length OBS. OBS' ! j =
          (if i \<le> int j \<and> int j < L then IBS ! j XOR k ! j else OBS ! j))"
  using assms
proof (induction i L IBS k OBS rule: EEA3_xor_loop.induct)
  case (1 i L IBS k OBS)
  show ?case
  proof (cases "i < L")
    case True
    have r1: "read_at IBS i = Some (IBS ! nat i)" and r2: "read_at k i = Some (k ! nat i)"
      and w: "write_at OBS i (IBS ! nat i XOR k ! nat i) = Some (OBS[nat i := IBS ! nat i XOR k ! nat i])"
      using True "1.prems" by (simp_all add: read_at_def write_at_def)
    obtain OBS' where o: "EEA3_xor_loop (i + 1) L IBS k (OBS[nat i := IBS ! nat i XOR k ! nat i]) = Some OBS'"
      and l: "length OBS' = length OBS"
      and n: "\<forall>j < length OBS. OBS' ! j =
          (if i + 1 \<le> int j \<and> int j < L then IBS ! j XOR k ! j
           else (OBS[nat i := IBS ! nat i XOR k ! nat i]) ! j)"
      using "1.IH" [OF True r1 r2 w] "1.prems" by auto
    have e: "EEA3_xor_loop i L IBS k OBS = Some OBS'"
      using True by (subst EEA3_xor_loop.simps) (simp add: r1 r2 w o)
    have "OBS' ! j = (if i \<le> int j \<and> int j < L then IBS ! j XOR k ! j else OBS ! j)"
      if "j < length OBS" for j
    proof (cases "int j = i")
      case True
      then have "nat i = j" by simp
      then show ?thesis using n that True \<open>i < L\<close> by auto
    next
      case False
      then have "nat i \<noteq> j" using "1.prems"(1) by auto
      then show ?thesis using n that False by auto
    qed
    then show ?thesis using e l by blast
  next
    case False
    then show ?thesis by (subst EEA3_xor_loop.simps) auto
  qed
qed

lemma length_mask_last [simp]: "length (mask_last LEN ws) = length ws"
  by (cases "ws = []") (simp_all add: mask_last_def)

lemma nth_mask_last:
  assumes "j < length ws"
  shows "mask_last LEN ws ! j =
    (if LEN mod 32 \<noteq> 0 \<and> j = length ws - 1
     then push_bit (nat (32 - LEN mod 32)) (drop_bit (nat (32 - LEN mod 32)) (ws ! j))
     else ws ! j)"
proof -
  have ne: "ws \<noteq> []" using assms by auto
  show ?thesis
  proof (cases "LEN mod 32 = 0")
    case True
    then show ?thesis by (simp add: mask_last_def)
  next
    case False
    show ?thesis
    proof (cases "j = length ws - 1")
      case True
      then show ?thesis
        using False ne by (simp add: mask_last_def nth_append last_conv_nth)
    next
      case False
      then have "j < length (butlast ws)" using assms by simp
      then show ?thesis
        using False by (simp add: mask_last_def nth_append nth_butlast)
    qed
  qed
qed

lemma ZUC_Confidentiality_Some:
  assumes "0 \<le> LEN" and "LEN + 31 \<le> INT_MAX"
    and "nat ((LEN + 31) div 32) \<le> length IBS"
    and "nat ((LEN + 31) div 32) \<le> length OBS"
  shows "\<exists>O1. ZUC_Confidentiality T CK COUNT BEARER DIRECTION IBS LEN OBS = Some O1
    \<and> length O1 = length OBS
    \<and> take (nat ((LEN + 31) div 32)) O1 =
        mask_last LEN (map2 (XOR) (take (nat ((LEN + 31) div 32)) IBS)
          (ZUC_GenKeyStream T CK (EEA3_iv COUNT BEARER DIRECTION) ((LEN + 31) div 32)))
    \<and> drop (nat ((LEN + 31) div 32)) O1 = drop (nat ((LEN + 31) div 32)) OBS"
proof -
  define L where "L = (LEN + 31) div 32"
  define k where "k = ZUC_GenKeyStream T CK (EEA3_iv COUNT BEARER DIRECTION) L"
  define h where "h = (\<lambda>w::u32. push_bit (nat (32 - LEN mod 32)) (drop_bit (nat (32 - LEN mod 32)) w))"
  have L0: "0 \<le> L" using assms(1) by (simp add: L_def)
  have lk: "length k = nat L" by (simp add: k_def)
  have cd: "c_div (LEN + 31) 32 = L" using assms(1) by (simp add: c_div_nonneg L_def)
  have cr: "c_rem LEN 32 = LEN mod 32" using assms(1) by (simp add: c_rem_nonneg)
  obtain OBS1 where x: "EEA3_xor_loop 0 L IBS k OBS = Some OBS1"
    and l1: "length OBS1 = length OBS"
    and n1: "\<forall>j < length OBS. OBS1 ! j = (if 0 \<le> int j \<and> int j < L then IBS ! j XOR k ! j else OBS ! j)"
  proof -
    have a: "L \<le> int (length IBS)" and b: "L \<le> int (length k)" and c: "L \<le> int (length OBS)"
      using assms(3,4) L0 lk by (simp_all add: L_def)
    from EEA3_xor_loop_Some [OF order_refl a b c] that show thesis by blast
  qed
  define O1 where "O1 = (if LEN mod 32 \<noteq> 0 then OBS1[nat (L - 1) := h (OBS1 ! nat (L - 1))] else OBS1)"
  have Lpos: "0 < L" if "LEN mod 32 \<noteq> 0"
  proof -
    from that have "0 < LEN" using assms(1) by (cases "LEN = 0") auto
    then show ?thesis unfolding L_def by simp
  qed
  have res: "ZUC_Confidentiality T CK COUNT BEARER DIRECTION IBS LEN OBS = Some O1"
  proof (cases "LEN mod 32 = 0")
    case True
    then show ?thesis
      using assms(2)
      by (simp add: ZUC_Confidentiality_def Let_def cd cr x O1_def flip: k_def)
  next
    case False
    have "L - 1 < int (length OBS1)" using assms(4) l1 L0 by (simp add: L_def)
    then have r: "read_at OBS1 (L - 1) = Some (OBS1 ! nat (L - 1))"
      and w: "write_at OBS1 (L - 1) v = Some (OBS1[nat (L - 1) := v])" for v
      using Lpos [OF False] by (simp_all add: read_at_def write_at_def)
    show ?thesis
      using assms(2) False
      by (simp add: ZUC_Confidentiality_def Let_def cd cr x O1_def r w h_def flip: k_def)
  qed
  have len: "length O1 = length OBS" by (simp add: O1_def l1)
  have nth_O1: "O1 ! j = (if LEN mod 32 \<noteq> 0 \<and> int j = L - 1 then h (OBS1 ! j) else OBS1 ! j)"
    if "j < length OBS" for j
  proof (cases "LEN mod 32 \<noteq> 0 \<and> int j = L - 1")
    case True
    then have "nat (L - 1) = j" by linarith
    then show ?thesis using True that l1 by (simp add: O1_def)
  next
    case False
    then have "LEN mod 32 \<noteq> 0 \<Longrightarrow> nat (L - 1) \<noteq> j" using Lpos by fastforce
    then show ?thesis using False by (auto simp: O1_def)
  qed
  have tk: "take (nat L) O1 = mask_last LEN (map2 (XOR) (take (nat L) IBS) k)"
  proof (rule nth_equalityI)
    show "length (take (nat L) O1) = length (mask_last LEN (map2 (XOR) (take (nat L) IBS) k))"
      using assms(3,4) len lk by (simp add: L_def)
  next
    fix j assume "j < length (take (nat L) O1)"
    then have j: "j < nat L" and jo: "j < length OBS" using len by simp_all
    have ji: "j < length IBS" using j assms(3) by (simp add: L_def)
    have lx: "length (map2 (XOR) (take (nat L) IBS) k) = nat L"
      using assms(3) lk by (simp add: L_def)
    have "take (nat L) O1 ! j = O1 ! j" using j by simp
    also have "\<dots> = (if LEN mod 32 \<noteq> 0 \<and> int j = L - 1 then h (IBS ! j XOR k ! j) else IBS ! j XOR k ! j)"
      using nth_O1 [OF jo] n1 jo j by auto
    also have "\<dots> = mask_last LEN (map2 (XOR) (take (nat L) IBS) k) ! j"
      using j ji lk lx by (auto simp: nth_mask_last h_def)
    finally show "take (nat L) O1 ! j = mask_last LEN (map2 (XOR) (take (nat L) IBS) k) ! j" .
  qed
  have dr: "drop (nat L) O1 = drop (nat L) OBS"
  proof (rule nth_equalityI)
    show "length (drop (nat L) O1) = length (drop (nat L) OBS)" by (simp add: len)
  next
    fix j assume "j < length (drop (nat L) O1)"
    then have j: "nat L + j < length OBS" using len by simp
    have "O1 ! (nat L + j) = OBS ! (nat L + j)"
      using nth_O1 [OF j] n1 j L0 by auto
    then show "drop (nat L) O1 ! j = drop (nat L) OBS ! j"
      using j len by simp
  qed
  show ?thesis
    using res len tk dr unfolding L_def k_def by blast
qed

lemma keep_high_xor_twice:
  fixes x z :: u32
  shows "push_bit m (drop_bit m (push_bit m (drop_bit m (x XOR z)) XOR z)) = push_bit m (drop_bit m x)"
  by (rule bit_word_eqI) (auto simp: bit_simps)

lemma bit_keep_high:
  fixes x :: u32
  shows "m \<le> n \<Longrightarrow> bit (push_bit m (drop_bit m x)) n = bit x n"
  by (auto simp: bit_simps dest: bit_imp_le_length)

lemma mask_last_xor_twice:
  assumes "length xs = length k"
  shows "mask_last LEN (map2 (XOR) (mask_last LEN (map2 (XOR) xs k)) k) = mask_last LEN xs"
proof (rule nth_equalityI)
  show "length (mask_last LEN (map2 (XOR) (mask_last LEN (map2 (XOR) xs k)) k)) = length (mask_last LEN xs)"
    using assms by simp
next
  fix j assume "j < length (mask_last LEN (map2 (XOR) (mask_last LEN (map2 (XOR) xs k)) k))"
  then have j: "j < length xs" and jk: "j < length k" using assms by simp_all
  define m where "m = nat (32 - LEN mod 32)"
  define ys where "ys = map2 (XOR) xs k"
  define zs where "zs = map2 (XOR) (mask_last LEN ys) k"
  have ly: "length ys = length xs" and lz: "length zs = length xs"
    using assms by (simp_all add: ys_def zs_def)
  have y: "ys ! j = xs ! j XOR k ! j" using j jk by (simp add: ys_def)
  have z: "zs ! j = mask_last LEN ys ! j XOR k ! j" using j jk ly by (simp add: zs_def)
  show "mask_last LEN (map2 (XOR) (mask_last LEN (map2 (XOR) xs k)) k) ! j = mask_last LEN xs ! j"
    unfolding ys_def [symmetric] zs_def [symmetric]
  proof (cases "LEN mod 32 \<noteq> 0 \<and> j = length xs - 1")
    case True
    have nm: "mask_last LEN ws ! j = push_bit m (drop_bit m (ws ! j))" if "length ws = length xs" for ws
      using True j that by (simp add: nth_mask_last m_def)
    have "mask_last LEN zs ! j = push_bit m (drop_bit m (zs ! j))"
      by (rule nm [OF lz])
    also have "zs ! j = push_bit m (drop_bit m (xs ! j XOR k ! j)) XOR k ! j"
      unfolding z nm [OF ly] y ..
    also have "push_bit m (drop_bit m (push_bit m (drop_bit m (xs ! j XOR k ! j)) XOR k ! j))
        = push_bit m (drop_bit m (xs ! j))"
      by (rule keep_high_xor_twice)
    also have "\<dots> = mask_last LEN xs ! j"
      by (rule nm [OF refl, symmetric])
    finally show "mask_last LEN zs ! j = mask_last LEN xs ! j" .
  next
    case False
    have "mask_last LEN zs ! j = zs ! j"
      using False j lz by (auto simp: nth_mask_last)
    also have "\<dots> = (xs ! j XOR k ! j) XOR k ! j"
      unfolding z using False j ly by (auto simp: nth_mask_last y)
    also have "\<dots> = xs ! j" by (simp add: xor.assoc)
    also have "\<dots> = mask_last LEN xs ! j"
      using False j by (auto simp: nth_mask_last)
    finally show "mask_last LEN zs ! j = mask_last LEN xs ! j" .
  qed
qed

lemma div32_succ:
  assumes "(LEN::int) mod 32 \<noteq> 0" shows "(LEN + 31) div 32 = LEN div 32 + 1"
proof (rule int_div_pos_eq)
  show "LEN + 31 = 32 * (LEN div 32 + 1) + (LEN mod 32 - 1)"
    by (simp add: algebra_simps)
  have "0 \<le> LEN mod 32" by simp
  then show "0 \<le> LEN mod 32 - 1" using assms by linarith
  have "LEN mod 32 < 32" by simp
  then show "LEN mod 32 - 1 < 32" by linarith
qed

lemma int_div32_mod32: "int n = 32 * int (n div 32) + int (n mod 32)"
proof -
  have "int n = int (32 * (n div 32) + n mod 32)" by simp
  then show ?thesis by (simp only: of_nat_add of_nat_mult of_nat_numeral)
qed

lemma last_word_bit_index:
  assumes "int n < LEN" and "0 \<le> LEN" and "LEN mod 32 \<noteq> 0"
    and "n div 32 = nat ((LEN + 31) div 32) - 1"
  shows "int (n mod 32) < LEN mod 32"
proof -
  have "0 \<le> LEN div 32" using assms(2) by simp
  then have "int (n div 32) = LEN div 32"
    unfolding assms(4) div32_succ [OF assms(3)] by simp
  moreover have "LEN = 32 * (LEN div 32) + LEN mod 32" by simp
  ultimately show ?thesis
    using int_div32_mod32 [of n] assms(1) by linarith
qed

lemma stream_bits_mask_last:
  assumes "0 \<le> LEN" and "length ws = nat ((LEN + 31) div 32)"
  shows "stream_bits (mask_last LEN ws) (nat LEN) = stream_bits ws (nat LEN)"
  unfolding stream_bits_def
proof (rule map_cong [OF refl])
  fix n assume "n \<in> set [0..<nat LEN]"
  then have n: "int n < LEN" by auto
  have j: "n div 32 < length ws"
    unfolding assms(2) using n assms(1) by linarith
  show "stream_bit (mask_last LEN ws) n = stream_bit ws n"
  proof (cases "LEN mod 32 \<noteq> 0 \<and> n div 32 = length ws - 1")
    case True
    have "int (n mod 32) < LEN mod 32"
      using last_word_bit_index [OF n assms(1)] True unfolding assms(2) by simp
    then have "nat (32 - LEN mod 32) \<le> 31 - n mod 32" by linarith
    then show ?thesis
      using True j by (simp add: stream_bit_def nth_mask_last bit_keep_high)
  next
    case False
    then show ?thesis using j by (auto simp: stream_bit_def nth_mask_last)
  qed
qed

lemma stream_bits_take:
  assumes "0 \<le> LEN" and "nat ((LEN + 31) div 32) \<le> length ws"
  shows "stream_bits (take (nat ((LEN + 31) div 32)) ws) (nat LEN) = stream_bits ws (nat LEN)"
  unfolding stream_bits_def
proof (rule map_cong [OF refl])
  fix n assume "n \<in> set [0..<nat LEN]"
  then have n: "int n < LEN" by auto
  have "n div 32 < nat ((LEN + 31) div 32)"
    using n assms(1) by linarith
  then show "stream_bit (take (nat ((LEN + 31) div 32)) ws) n = stream_bit ws n"
    by (simp add: stream_bit_def)
qed

text \<open>
  Claim C8.  For a bit length \<open>LENGTH \<ge> 0\<close> (with \<open>LENGTH + 31\<close> an \<open>int\<close>) and arrays that
  hold the \<open>ceil(LENGTH / 32)\<close> words the code reads and writes, \<open>ZUC_Confidentiality\<close>
  returns, generates exactly \<open>ceil(LENGTH / 32)\<close> key stream words, and writes the input
  XOR the key stream with the unused low bits of the last word zeroed.  Applied again to
  its own output with the same key, \<open>COUNT\<close>, \<open>BEARER\<close> and \<open>DIRECTION\<close>, it gives back the
  input bit stream of length \<open>LENGTH\<close>: the same \<open>LENGTH\<close> bits, that is the input words with
  the unused low bits of the last word zeroed.
\<close>

theorem EEA3_twice:
  assumes "0 \<le> LEN" and "LEN + 31 \<le> INT_MAX"
    and "nat ((LEN + 31) div 32) \<le> length IBS"
    and "nat ((LEN + 31) div 32) \<le> length OBS"
    and "nat ((LEN + 31) div 32) \<le> length OBS2"
  shows "\<exists>O1 O2.
      ZUC_Confidentiality T CK COUNT BEARER DIRECTION IBS LEN OBS = Some O1
    \<and> ZUC_Confidentiality T CK COUNT BEARER DIRECTION O1 LEN OBS2 = Some O2
    \<and> length (ZUC_GenKeyStream T CK (EEA3_iv COUNT BEARER DIRECTION) ((LEN + 31) div 32))
        = nat ((LEN + 31) div 32)
    \<and> take (nat ((LEN + 31) div 32)) O1 =
        mask_last LEN (map2 (XOR) (take (nat ((LEN + 31) div 32)) IBS)
          (ZUC_GenKeyStream T CK (EEA3_iv COUNT BEARER DIRECTION) ((LEN + 31) div 32)))
    \<and> take (nat ((LEN + 31) div 32)) O2 = mask_last LEN (take (nat ((LEN + 31) div 32)) IBS)
    \<and> stream_bits O2 (nat LEN) = stream_bits IBS (nat LEN)"
proof -
  define L where "L = nat ((LEN + 31) div 32)"
  define k where "k = ZUC_GenKeyStream T CK (EEA3_iv COUNT BEARER DIRECTION) ((LEN + 31) div 32)"
  have lk: "length k = L" by (simp add: k_def L_def)
  obtain O1 where r1: "ZUC_Confidentiality T CK COUNT BEARER DIRECTION IBS LEN OBS = Some O1"
    and l1: "length O1 = length OBS"
    and t1: "take L O1 = mask_last LEN (map2 (XOR) (take L IBS) k)"
    using ZUC_Confidentiality_Some [OF assms(1,2,3,4)] unfolding L_def k_def by blast
  have i1: "nat ((LEN + 31) div 32) \<le> length O1" using l1 assms(4) by simp
  obtain O2 where r2: "ZUC_Confidentiality T CK COUNT BEARER DIRECTION O1 LEN OBS2 = Some O2"
    and l2: "length O2 = length OBS2"
    and t2: "take L O2 = mask_last LEN (map2 (XOR) (take L O1) k)"
    using ZUC_Confidentiality_Some [OF assms(1,2) i1 assms(5)] unfolding L_def k_def by blast
  have lt: "length (take L IBS) = length k" using assms(3) lk by (simp add: L_def)
  have t2': "take L O2 = mask_last LEN (take L IBS)"
    unfolding t2 t1 by (rule mask_last_xor_twice [OF lt])
  have "stream_bits O2 (nat LEN) = stream_bits (take L O2) (nat LEN)"
    unfolding L_def using stream_bits_take [OF assms(1)] l2 assms(5) by simp
  also have "\<dots> = stream_bits (take L IBS) (nat LEN)"
    unfolding t2' using stream_bits_mask_last [OF assms(1), of "take L IBS"] assms(3)
    by (simp add: L_def)
  also have "\<dots> = stream_bits IBS (nat LEN)"
    unfolding L_def by (rule stream_bits_take [OF assms(1,3)])
  finally have sb: "stream_bits O2 (nat LEN) = stream_bits IBS (nat LEN)" .
  show ?thesis
    using r1 r2 lk t1 t2' sb unfolding L_def k_def by blast
qed

theorem EEA3_twice_witness:
  "(0::int) \<le> 33 \<and> (33::int) + 31 \<le> INT_MAX
   \<and> nat ((33 + 31) div 32) \<le> length [0x6cf65340, 0x735552ab :: u32]
   \<and> nat ((33 + 31) div 32) \<le> length [0, 0 :: u32]
   \<and> (\<exists>O1 O2.
        ZUC_Confidentiality sample_tables (replicate 16 0x17) 0x66035492 0x0f 0
          [0x6cf65340, 0x735552ab] 33 [0, 0] = Some O1
      \<and> ZUC_Confidentiality sample_tables (replicate 16 0x17) 0x66035492 0x0f 0
          O1 33 [0, 0] = Some O2
      \<and> stream_bits O2 (nat 33) = stream_bits [0x6cf65340, 0x735552ab] (nat 33))"
proof -
  have h1: "(0::int) \<le> 33" and h2: "(33::int) + 31 \<le> INT_MAX"
    and h3: "nat ((33 + 31) div 32) \<le> length [0x6cf65340, 0x735552ab :: u32]"
    and h4: "nat ((33 + 31) div 32) \<le> length [0, 0 :: u32]"
    by (simp_all add: INT_MAX_def)
  from EEA3_twice [OF h1 h2 h3 h4 h4, of sample_tables "replicate 16 0x17" "0x66035492" "0x0f" 0]
  obtain O1 O2 where
    a: "ZUC_Confidentiality sample_tables (replicate 16 0x17) 0x66035492 0x0f 0
          [0x6cf65340, 0x735552ab] 33 [0, 0] = Some O1"
    and b: "ZUC_Confidentiality sample_tables (replicate 16 0x17) 0x66035492 0x0f 0
          O1 33 [0, 0] = Some O2"
    and c: "stream_bits O2 (nat 33) = stream_bits [0x6cf65340, 0x735552ab] (nat 33)"
    by blast
  show ?thesis
    by (intro conjI h1 h2 h3 h4 exI [of _ O1] exI [of _ O2] a b c)
qed

section \<open>128-EIA3 against the specification\<close>

lemma uint_drop_bit_5:
  assumes "0 \<le> i" and "i < 2 ^ 32"
  shows "uint (drop_bit 5 (word_of_int i :: u32)) = i div 32"
proof -
  have "uint (word_of_int i :: u32) = i"
    using assms by (simp add: uint_word_of_int take_bit_eq_mod)
  then show ?thesis
    by (simp add: drop_bit_eq_div uint_div)
qed

lemma unat_and_1f:
  assumes "0 \<le> i" and "i < 2 ^ 32"
  shows "unat ((word_of_int i :: u32) AND 0x1f) = nat (i mod 32)"
proof -
  have u: "unat (word_of_int i :: u32) = nat i"
    using assms by (simp add: unat_eq_nat_uint uint_word_of_int take_bit_eq_mod)
  have m5: "(0x1f :: u32) = mask 5" by (simp add: mask_eq_exp_minus_1)
  have "unat ((word_of_int i :: u32) AND 0x1f) = unat (word_of_int i :: u32) mod 32"
    by (simp add: m5 take_bit_eq_mod unat_mod flip: take_bit_eq_mask)
  then show ?thesis
    using assms(1) by (simp add: u nat_mod_distrib)
qed

lemma bit_stream_word:
  "bit (stream_word ws i) b \<longleftrightarrow> b < 32 \<and> stream_bit ws (i + 31 - b)"
  by (auto simp: stream_word_def bit_horner_sum_bit_word_iff)

lemma BitValue_stream_bit:
  assumes "0 \<le> i" and "i < 2 ^ 32" and "nat (i div 32) < length M"
  shows "BitValue M (word_of_int i) = Some (if stream_bit M (nat i) then 1 else 0)"
proof -
  have "0 \<le> i div 32" using assms(1) by simp
  then have r: "read_at M (i div 32) = Some (M ! nat (i div 32))"
    using assms(3) by (simp add: read_at_def)
  have d: "nat i div 32 = nat (i div 32)" and m: "nat i mod 32 = nat (i mod 32)"
    using assms(1) by (simp_all add: nat_div_distrib nat_mod_distrib)
  show ?thesis
    unfolding BitValue_def Let_def uint_drop_bit_5 [OF assms(1,2)] unat_and_1f [OF assms(1,2)] r
    by (simp add: stream_bit_def d m bit_iff_and_push_bit_not_eq_0)
qed

lemma GetWord_stream_word:
  assumes "0 \<le> i" and "i < 2 ^ 32"
    and "nat (i div 32) + (if i mod 32 = 0 then 0 else 1) < length k"
  shows "GetWord k (word_of_int i) = Some (stream_word k (nat i))"
proof -
  define j where "j = nat (i div 32)"
  define m where "m = nat (i mod 32)"
  have m32: "m < 32" using assms(1) by (simp add: m_def nat_less_iff)
  have i: "nat i = 32 * j + m"
    using assms(1) unfolding j_def m_def
    by (metis mult_div_mod_eq nat_div_distrib nat_mod_distrib nat_numeral zero_le_numeral) 
  have d0: "0 \<le> i div 32" using assms(1) by simp
  have "j < length k" using assms(3) by (simp add: j_def split: if_splits)
  then have rj: "read_at k (i div 32) = Some (k ! j)"
    using d0 by (simp add: read_at_def j_def)
  show ?thesis
  proof (cases "m = 0")
    case True
    have "stream_word k (nat i) = k ! j"
    proof (rule bit_word_eqI)
      fix b assume "b < LENGTH(32)"
      then have b: "b < 32" by simp
      then have "(32 * j + 31 - b) div 32 = j" and "(32 * j + 31 - b) mod 32 = 31 - b"
        by (simp_all add: div_nat_eqI mod_nat_eqI)
      then show "bit (stream_word k (nat i)) b = bit (k ! j) b"
        using b by (simp add: bit_stream_word i True stream_bit_def)
    qed
    then show ?thesis
      unfolding GetWord_def Let_def uint_drop_bit_5 [OF assms(1,2)] unat_and_1f [OF assms(1,2)]
      using True by (simp add: rj flip: m_def)
  next
    case False
    then have im: "i mod 32 \<noteq> 0" using assms(1) by (auto simp: m_def)
    have "j + 1 < length k" using assms(3) im by (simp add: j_def)
    then have rj1: "read_at k (i div 32 + 1) = Some (k ! (j + 1))"
      using d0 by (simp add: read_at_def j_def nat_add_distrib)
    have "stream_word k (nat i) = push_bit m (k ! j) OR drop_bit (32 - m) (k ! (j + 1))"
    proof (rule bit_word_eqI)
      fix b assume "b < LENGTH(32)"
      then have b: "b < 32" by simp
      show "bit (stream_word k (nat i)) b = bit (push_bit m (k ! j) OR drop_bit (32 - m) (k ! (j + 1))) b"
      proof (cases "m \<le> b")
        case True
        then have "(32 * j + m + 31 - b) div 32 = j" and "(32 * j + m + 31 - b) mod 32 = 31 - (b - m)"
          using b m32 by (simp_all add: div_nat_eqI mod_nat_eqI)
        moreover have "\<not> bit (k ! (j + 1)) (32 - m + b)"
          using True by (auto dest: bit_imp_le_length)
        ultimately show ?thesis
          using b True m32 by (simp add: bit_stream_word i stream_bit_def bit_simps)
      next
        case False
        then have "(32 * j + m + 31 - b) div 32 = j + 1"
          and "(32 * j + m + 31 - b) mod 32 = m - 1 - b"
          using b m32 by (simp_all add: div_nat_eqI mod_nat_eqI)
        moreover have "31 - (m - 1 - b) = 32 - m + b" using False m32 by simp
        ultimately show ?thesis
          using b False m32 by (simp add: bit_stream_word i stream_bit_def bit_simps)
      qed
    qed
    then show ?thesis
      unfolding GetWord_def Let_def uint_drop_bit_5 [OF assms(1,2)] unat_and_1f [OF assms(1,2)]
      using False by (simp add: rj rj1 flip: m_def)
  qed
qed

lemma EIA3_loop_fold:
  assumes "0 \<le> i" and "LEN < 2 ^ 32"
    and "nat ((LEN + 31) div 32) \<le> length M"
    and "nat ((LEN + 31) div 32) < length k"
  shows "EIA3_loop M k i LEN T =
    Some (fold (\<lambda>i T. if stream_bit M i then T XOR stream_word k i else T) [nat i..<nat LEN] T)"
  using assms
proof (induction M k i LEN T rule: EIA3_loop.induct)
  case (1 M k i LEN T)
  show ?case
  proof (cases "i < LEN")
    case True
    have i32: "i < 2 ^ 32" using True "1.prems"(2) by simp
    have dl: "i div 32 < (LEN + 31) div 32"
      using True by linarith
    have d0: "0 \<le> i div 32" using "1.prems"(1) by simp
    have jM: "nat (i div 32) < length M" using dl d0 "1.prems"(3) by linarith
    have jk: "nat (i div 32) + (if i mod 32 = 0 then 0 else 1) < length k"
      using dl d0 "1.prems"(4) by (simp split: if_splits) linarith
    note bv = BitValue_stream_bit [OF "1.prems"(1) i32 jM]
    note gw = GetWord_stream_word [OF "1.prems"(1) i32 jk]
    have up: "[nat i..<nat LEN] = nat i # [nat (i + 1)..<nat LEN]"
      using True "1.prems"(1) by (simp add: upt_conv_Cons nat_add_distrib)
    have i1: "0 \<le> i + 1" using "1.prems"(1) by simp
    show ?thesis
    proof (cases "stream_bit M (nat i)")
      case sb: True
      have b: "BitValue M (word_of_int i) = Some 1" using bv sb by simp
      show ?thesis
        using "1.IH"(1) [OF True b _ gw i1 "1.prems"(2,3,4)] True sb
        by (subst EIA3_loop.simps) (simp add: b gw up)
    next
      case sb: False
      have b: "BitValue M (word_of_int i) = Some 0" using bv sb by simp
      show ?thesis
        using "1.IH"(2) [OF True b _ i1 "1.prems"(2,3,4)] True sb
        by (subst EIA3_loop.simps) (simp add: b up)
    qed
  next
    case False
    then show ?thesis by (subst EIA3_loop.simps) simp
  qed
qed

text \<open>
  Claim C9.  For a bit length \<open>LENGTH \<ge> 0\<close> (with \<open>32 * (L - 1)\<close> an \<open>int\<close>) and a message array
  of at least \<open>ceil(LENGTH / 32)\<close> words, \<open>ZUC_Integrity\<close> generates exactly
  \<open>L = ceil(LENGTH / 32) + 2\<close> key stream words and returns the MAC of the specification:
  the XOR of \<open>word(k, i)\<close> over the message bits \<open>i < LENGTH\<close> that are 1, then of
  \<open>word(k, LENGTH)\<close>, then of \<open>word(k, 32 * (L - 1))\<close>.  Every array access of the model is
  checked against the array's length, so the result \<open>Some\<close> says that each \<open>GetWord\<close> read
  only within the \<open>L\<close> words of the key stream.
\<close>

theorem ZUC_Integrity_spec:
  assumes "0 \<le> LEN" and "LEN + 63 \<le> INT_MAX"
    and "nat ((LEN + 31) div 32) \<le> length M"
  shows "ZUC_Integrity T IK COUNT BEARER DIRECTION M LEN =
      Some (EIA3_spec (ZUC_GenKeyStream T IK (EIA3_iv COUNT BEARER DIRECTION) ((LEN + 31) div 32 + 2))
        M (nat LEN))
    \<and> length (ZUC_GenKeyStream T IK (EIA3_iv COUNT BEARER DIRECTION) ((LEN + 31) div 32 + 2))
        = nat ((LEN + 31) div 32) + 2"
proof -
  define L where "L = (LEN + 31) div 32 + 2"
  define k where "k = ZUC_GenKeyStream T IK (EIA3_iv COUNT BEARER DIRECTION) L"
  have c0: "0 \<le> (LEN + 31) div 32" using assms(1) by simp
  have lk: "length k = nat ((LEN + 31) div 32) + 2"
    using c0 by (simp add: k_def L_def nat_add_distrib)
  have cd: "c_div (LEN + 31) 32 + 2 = L" using assms(1) by (simp add: c_div_nonneg L_def)
  have l32: "LEN < 2 ^ 32" using assms(2) by (simp add: INT_MAX_def)
  have lp: "EIA3_loop M k 0 LEN 0 =
      Some (fold (\<lambda>i T. if stream_bit M i then T XOR stream_word k i else T) [0..<nat LEN] 0)"
    using EIA3_loop_fold [OF order_refl l32 assms(3), of k 0] lk by simp
  have dl: "LEN div 32 \<le> (LEN + 31) div 32" by linarith
  have d0: "0 \<le> LEN div 32" using assms(1) by simp
  have "nat (LEN div 32) + (if LEN mod 32 = 0 then 0 else 1) < length k"
  proof (cases "LEN mod 32 = 0")
    case True
    then show ?thesis using dl d0 lk by simp linarith
  next
    case False
    then show ?thesis using div32_succ [OF False] d0 lk by (simp add: nat_add_distrib)
  qed
  note g1 = GetWord_stream_word [OF assms(1) l32 this]
  define q where "q = (LEN + 31) div 32"
  have "32 * q \<le> LEN + 31" unfolding q_def by linarith
  moreover have "32 * (L - 1) = 32 * q + 32" by (simp add: L_def q_def)
  ultimately have ov: "32 * (L - 1) \<le> INT_MAX"
    using assms(2) by linarith
  have p0: "0 \<le> 32 * (L - 1)" using c0 by (simp add: L_def)
  have p32: "32 * (L - 1) < 2 ^ 32" using ov by (simp add: INT_MAX_def)
  have "nat (32 * (L - 1) div 32) + (if 32 * (L - 1) mod 32 = 0 then 0 else 1) < length k"
    using c0 lk by (simp add: L_def nat_add_distrib)
  note g2 = GetWord_stream_word [OF p0 p32 this]
  have nl: "nat (32 * (L - 1)) = 32 * ((nat LEN + 31) div 32 + 2 - 1)"
    using assms(1) c0 unfolding L_def
    by (simp add: nat_add_distrib nat_mult_distrib nat_div_distrib)
  have "ZUC_Integrity T IK COUNT BEARER DIRECTION M LEN = Some (EIA3_spec k M (nat LEN))"
    unfolding ZUC_Integrity_def EIA3_spec_def Let_def cd k_def [symmetric] lp g1 g2 nl option.case
    using assms(2) ov by simp
  then show ?thesis using lk unfolding k_def L_def by simp
qed

theorem ZUC_Integrity_spec_witness:
  "(0::int) \<le> 1 \<and> (1::int) + 63 \<le> INT_MAX \<and> nat ((1 + 31) div 32) \<le> length [0 :: u32]
   \<and> ZUC_Integrity sample_tables (replicate 16 0) 0 0 0 [0] 1 =
       Some (EIA3_spec (ZUC_GenKeyStream sample_tables (replicate 16 0) (EIA3_iv 0 0 0) ((1 + 31) div 32 + 2))
         [0] (nat 1))"
proof -
  have h1: "(0::int) \<le> 1" and h2: "(1::int) + 63 \<le> INT_MAX"
    and h3: "nat ((1 + 31) div 32) \<le> length [0 :: u32]"
    by (simp_all add: INT_MAX_def)
  note t = ZUC_Integrity_spec [OF h1 h2 h3, of sample_tables "replicate 16 0" 0 0 0]
  show ?thesis
    by (intro conjI h1 h2 h3 t [THEN conjunct1])
qed

section \<open>SM4: decryption inverts encryption\<close>

lemma mask8: "(0xFF :: u32) = mask 8"
  by (simp add: mask_eq_exp_minus_1)

lemma SM4_unpack_pack: "SM4_unpack (SM4_pack b0 b1 b2 b3) = [b0, b1, b2, b3]"
  unfolding SM4_unpack_def SM4_pack_def mask8
  by (simp, intro conjI; rule bit_word_eqI; auto simp: bit_simps dest: bit_imp_le_length)

lemma SM4_pack_unpack:
  "SM4_pack (ucast (drop_bit 24 x AND 0xFF)) (ucast (drop_bit 16 x AND 0xFF))
     (ucast (drop_bit 8 x AND 0xFF)) (ucast (x AND 0xFF)) = x"
  unfolding SM4_pack_def mask8
proof (rule bit_word_eqI)
  fix n assume "n < LENGTH(32)"
  then consider "n < 8" | "8 \<le> n" "n < 16" | "16 \<le> n" "n < 24" | "24 \<le> n" "n < 32"
    by fastforce
  then show "bit (push_bit 24 (ucast (ucast (drop_bit 24 x AND mask 8) :: u8) :: u32)
        OR push_bit 16 (ucast (ucast (drop_bit 16 x AND mask 8) :: u8))
        OR push_bit 8 (ucast (ucast (drop_bit 8 x AND mask 8) :: u8))
        OR ucast (ucast (x AND mask 8) :: u8)) n = bit x n"
    by cases (auto simp: bit_simps)
qed

lemma SM4_load_store_rev [simp]:
  "SM4_load (SM4_store_rev (x0, x1, x2, x3)) = (x3, x2, x1, x0)"
  by (simp add: SM4_load_def SM4_store_rev_def SM4_unpack_def SM4_pack_unpack)

lemma SM4_store_rev_load:
  assumes "length B = 16"
  shows "SM4_store_rev (case SM4_load B of (x0, x1, x2, x3) \<Rightarrow> (x3, x2, x1, x0)) = B"
proof -
  obtain b0 b1 b2 b3 b4 b5 b6 b7 b8 b9 b10 b11 b12 b13 b14 b15
    where B: "B = [b0, b1, b2, b3, b4, b5, b6, b7, b8, b9, b10, b11, b12, b13, b14, b15]"
    using assms by (auto simp: length_Suc_conv eval_nat_numeral)
  show ?thesis
    by (simp add: B SM4_load_def SM4_store_rev_def SM4_unpack_pack)
qed

lemma SM4_round_rev4: "SM4_round T (rev4 (SM4_round T s rk)) rk = rev4 s"
  by (cases s) (simp add: SM4_round_def rev4_def xor.commute xor.left_commute)

lemma SM4_rounds_rev:
  "rev4 (foldl (SM4_round T) (rev4 (foldl (SM4_round T) s rks)) (rev rks)) = s"
proof (induction rks rule: rev_induct)
  case Nil
  show ?case by (cases s) (simp add: rev4_def)
next
  case (snoc rk rks)
  then show ?case by (simp add: SM4_round_rev4)
qed

lemma SM4_Encrypt_loop_rounds:
  assumes "i \<le> 32" and "length X = 36"
  shows "length (SM4_Encrypt_loop T rk i X) = 36 \<and>
    (SM4_Encrypt_loop T rk i X ! 32, SM4_Encrypt_loop T rk i X ! 33,
     SM4_Encrypt_loop T rk i X ! 34, SM4_Encrypt_loop T rk i X ! 35) =
    foldl (SM4_round T) (X ! i, X ! (i + 1), X ! (i + 2), X ! (i + 3)) (map (\<lambda>j. rk ! j) [i..<32])"
  using assms
proof (induction T rk i X rule: SM4_Encrypt_loop.induct)
  case (1 T rk i X)
  show ?case
  proof (cases "i < 32")
    case True
    define tmp where "tmp = X ! (i + 1) XOR X ! (i + 2) XOR X ! (i + 3) XOR rk ! i"
    define buf where "buf = SM4_nonlinear T tmp"
    define X' where "X' = X[i + 4 := X ! i XOR (buf XOR SM4_Rotl32 buf 2 XOR SM4_Rotl32 buf 10
                                        XOR SM4_Rotl32 buf 18 XOR SM4_Rotl32 buf 24)]"
    have step: "SM4_Encrypt_loop T rk i X = SM4_Encrypt_loop T rk (i + 1) X'"
      using True by (subst SM4_Encrypt_loop.simps) (simp add: Let_def X'_def buf_def tmp_def)
    have len: "length X' = 36" using "1.prems" by (simp add: X'_def)
    have n1: "X' ! (i + 1) = X ! (i + 1)" and n2: "X' ! (i + 2) = X ! (i + 2)"
      and n3: "X' ! (i + 3) = X ! (i + 3)"
      by (simp_all add: X'_def)
    have n4: "X' ! (i + 4) = X ! i XOR SM4_L buf"
      using True "1.prems"(2) by (simp add: X'_def SM4_L_def SM4_Rotl32_def)
    have e: "i + 1 + 1 = i + 2" "i + 1 + 2 = i + 3" "i + 1 + 3 = i + 4" by simp_all
    have win: "(X' ! (i + 1), X' ! (i + 1 + 1), X' ! (i + 1 + 2), X' ! (i + 1 + 3))
        = SM4_round T (X ! i, X ! (i + 1), X ! (i + 2), X ! (i + 3)) (rk ! i)"
      unfolding e n1 n2 n3 n4 by (simp add: SM4_round_def buf_def tmp_def)
    have up: "[i..<32] = i # [i + 1..<32]" using True by (simp add: upt_conv_Cons)
    have i1: "i + 1 \<le> 32" using True by simp
    show ?thesis
      using "1.IH" [OF True tmp_def buf_def X'_def i1 len]
      unfolding step win up by simp
  next
    case False
    then have "i = 32" using "1.prems" by simp
    then show ?thesis using "1.prems" by (subst (1 2 3 4 5) SM4_Encrypt_loop.simps) simp
  qed
qed
lemma SM4_Decrypt_loop_rounds:
  assumes "i \<le> 32" and "length X = 36"
  shows "length (SM4_Decrypt_loop T rk i X) = 36 \<and>
    (SM4_Decrypt_loop T rk i X ! 32, SM4_Decrypt_loop T rk i X ! 33,
     SM4_Decrypt_loop T rk i X ! 34, SM4_Decrypt_loop T rk i X ! 35) =
    foldl (SM4_round T) (X ! i, X ! (i + 1), X ! (i + 2), X ! (i + 3)) (map (\<lambda>j. rk ! (31 - j)) [i..<32])"
  using assms
proof (induction T rk i X rule: SM4_Decrypt_loop.induct)
  case (1 T rk i X)
  show ?case
  proof (cases "i < 32")
    case True
    define tmp where "tmp = X ! (i + 1) XOR X ! (i + 2) XOR X ! (i + 3) XOR rk ! (31 - i)"
    define buf where "buf = SM4_nonlinear T tmp"
    define X' where "X' = X[i + 4 := X ! i XOR (buf XOR SM4_Rotl32 buf 2 XOR SM4_Rotl32 buf 10
                                        XOR SM4_Rotl32 buf 18 XOR SM4_Rotl32 buf 24)]"
    have step: "SM4_Decrypt_loop T rk i X = SM4_Decrypt_loop T rk (i + 1) X'"
      using True by (subst SM4_Decrypt_loop.simps) (simp add: Let_def X'_def buf_def tmp_def)
    have len: "length X' = 36" using "1.prems" by (simp add: X'_def)
    have n1: "X' ! (i + 1) = X ! (i + 1)" and n2: "X' ! (i + 2) = X ! (i + 2)"
      and n3: "X' ! (i + 3) = X ! (i + 3)"
      by (simp_all add: X'_def)
    have n4: "X' ! (i + 4) = X ! i XOR SM4_L buf"
      using True "1.prems"(2) by (simp add: X'_def SM4_L_def SM4_Rotl32_def)
    have e: "i + 1 + 1 = i + 2" "i + 1 + 2 = i + 3" "i + 1 + 3 = i + 4" by simp_all
    have win: "(X' ! (i + 1), X' ! (i + 1 + 1), X' ! (i + 1 + 2), X' ! (i + 1 + 3))
        = SM4_round T (X ! i, X ! (i + 1), X ! (i + 2), X ! (i + 3)) (rk ! (31 - i))"
      unfolding e n1 n2 n3 n4 by (simp add: SM4_round_def buf_def tmp_def)
    have up: "[i..<32] = i # [i + 1..<32]" using True by (simp add: upt_conv_Cons)
    have i1: "i + 1 \<le> 32" using True by simp
    show ?thesis
      using "1.IH" [OF True tmp_def buf_def X'_def i1 len]
      unfolding step win up by simp
  next
    case False
    then have "i = 32" using "1.prems" by simp
    then show ?thesis using "1.prems" by (subst (1 2 3 4 5) SM4_Decrypt_loop.simps) simp
  qed
qed

lemma length_SM4_KeySchedule_loop:
  "length (snd (SM4_KeySchedule_loop T i K rk)) = length rk"
proof (induction T i K rk rule: SM4_KeySchedule_loop.induct)
  case (1 T i K rk)
  show ?case
  proof (cases "i < 32")
    case True
    show ?thesis
      using "1.IH" [OF True refl refl refl refl] True
      by (subst SM4_KeySchedule_loop.simps) (simp add: Let_def)
  next
    case False
    then show ?thesis by (subst SM4_KeySchedule_loop.simps) simp
  qed
qed

lemma length_SM4_KeySchedule [simp]: "length (SM4_KeySchedule T MK) = 32"
  by (simp add: SM4_KeySchedule_def Let_def length_SM4_KeySchedule_loop)

lemma upt_0_4: "[0..<4] = [0, 1, 2, 3]"
  by (simp add: upt_conv_Cons)

lemma map_nth_32: "length rk = 32 \<Longrightarrow> map (\<lambda>j. rk ! j) [0..<32] = rk"
  using map_nth [of rk] by simp

lemma map_nth_rev_32:
  assumes "length rk = 32"
  shows "map (\<lambda>j. rk ! (31 - j)) [0..<32] = rev rk"
proof (rule nth_equalityI)
  show "length (map (\<lambda>j. rk ! (31 - j)) [0..<32]) = length (rev rk)"
    using assms by simp
next
  fix n assume "n < length (map (\<lambda>j. rk ! (31 - j)) [0..<32])"
  then have n: "n < 32" by simp
  then show "map (\<lambda>j. rk ! (31 - j)) [0..<32] ! n = rev rk ! n"
    using assms by (simp add: rev_nth)
qed

lemma SM4_initial_X:
  "fold (\<lambda>j X. X[j := SM4_pack (B ! (j * 4)) (B ! (j * 4 + 1)) (B ! (j * 4 + 2)) (B ! (j * 4 + 3))])
     [0..<4] (replicate 36 0) = X \<Longrightarrow>
   length X = 36 \<and> (X ! 0, X ! (0 + 1), X ! (0 + 2), X ! (0 + 3)) = SM4_load B"
  by (auto simp: upt_0_4 SM4_load_def eval_nat_numeral)

lemma SM4_Encrypt_rounds: "SM4_Encrypt T MK B = SM4_rounds T (SM4_KeySchedule T MK) B"
proof -
  define rk where "rk = SM4_KeySchedule T MK"
  define X where "X = fold (\<lambda>j X. X[j := SM4_pack (B ! (j * 4)) (B ! (j * 4 + 1))
      (B ! (j * 4 + 2)) (B ! (j * 4 + 3))]) [0..<4] (replicate 36 0)"
  define Y where "Y = SM4_Encrypt_loop T rk 0 X"
  have lX: "length X = 36" and X0: "(X ! 0, X ! (0 + 1), X ! (0 + 2), X ! (0 + 3)) = SM4_load B"
    using SM4_initial_X [OF X_def [symmetric]] by simp_all
  have "(Y ! 32, Y ! 33, Y ! 34, Y ! 35) = foldl (SM4_round T) (SM4_load B) rk"
    using SM4_Encrypt_loop_rounds [OF _ lX, of 0 T rk]
    unfolding Y_def X0 by (simp add: map_nth_32 rk_def)
  then have "SM4_store_rev (foldl (SM4_round T) (SM4_load B) rk)
      = concat (map (\<lambda>j. SM4_unpack (Y ! (35 - j))) [0..<4])"
    by (auto simp: SM4_store_rev_def upt_0_4 split: prod.splits)
  then show ?thesis
    by (simp add: SM4_Encrypt_def SM4_rounds_def Let_def rk_def X_def Y_def)
qed

lemma SM4_Decrypt_rounds: "SM4_Decrypt T MK B = SM4_rounds T (rev (SM4_KeySchedule T MK)) B"
proof -
  define rk where "rk = SM4_KeySchedule T MK"
  define X where "X = fold (\<lambda>j X. X[j := SM4_pack (B ! (j * 4)) (B ! (j * 4 + 1))
      (B ! (j * 4 + 2)) (B ! (j * 4 + 3))]) [0..<4] (replicate 36 0)"
  define Y where "Y = SM4_Decrypt_loop T rk 0 X"
  have lX: "length X = 36" and X0: "(X ! 0, X ! (0 + 1), X ! (0 + 2), X ! (0 + 3)) = SM4_load B"
    using SM4_initial_X [OF X_def [symmetric]] by simp_all
  have "(Y ! 32, Y ! 33, Y ! 34, Y ! 35) = foldl (SM4_round T) (SM4_load B) (rev rk)"
    using SM4_Decrypt_loop_rounds [OF _ lX, of 0 T rk]
    unfolding Y_def X0 by (simp add: map_nth_rev_32 rk_def)
  then have "SM4_store_rev (foldl (SM4_round T) (SM4_load B) (rev rk))
      = concat (map (\<lambda>j. SM4_unpack (Y ! (35 - j))) [0..<4])"
    by (auto simp: SM4_store_rev_def upt_0_4 split: prod.splits)
  then show ?thesis
    by (simp add: SM4_Decrypt_def SM4_rounds_def Let_def rk_def X_def Y_def)
qed

lemma SM4_rounds_inverse:
  assumes "length B = 16"
  shows "SM4_rounds T (rev rks) (SM4_rounds T rks B) = B"
proof -
  define s where "s = foldl (SM4_round T) (SM4_load B) rks"
  have l: "SM4_load (SM4_store_rev s) = rev4 s"
    by (cases s) (simp add: rev4_def)
  have "SM4_rounds T (rev rks) (SM4_rounds T rks B)
      = SM4_store_rev (foldl (SM4_round T) (rev4 s) (rev rks))"
    by (simp add: SM4_rounds_def s_def [symmetric] l)
  also have "\<dots> = SM4_store_rev (rev4 (rev4 (foldl (SM4_round T) (rev4 s) (rev rks))))"
    by (cases "foldl (SM4_round T) (rev4 s) (rev rks)") (simp add: rev4_def)
  also have "\<dots> = SM4_store_rev (rev4 (SM4_load B))"
    unfolding s_def SM4_rounds_rev ..
  also have "\<dots> = B"
    using SM4_store_rev_load [OF assms] by (simp add: rev4_def)
  finally show ?thesis .
qed

text \<open>
  Claim C3.  For every key and every block \<open>B\<close> of sixteen bytes,
  \<open>SM4_Decrypt(key, SM4_Encrypt(key, B)) = B\<close>.  Both functions run the same 32 rounds over
  the 32 round keys of \<open>SM4_KeySchedule\<close>: encryption in the order \<open>rk[0], ..., rk[31]\<close>,
  decryption in the reverse order.  The S-box and the constants of \<open>SM4.h\<close> are arbitrary.
\<close>

theorem SM4_Decrypt_Encrypt:
  assumes "length B = 16"
  shows "SM4_Decrypt T key (SM4_Encrypt T key B) = B
    \<and> length (SM4_KeySchedule T key) = 32
    \<and> SM4_Encrypt T key B = SM4_rounds T (SM4_KeySchedule T key) B
    \<and> SM4_Decrypt T key B = SM4_rounds T (rev (SM4_KeySchedule T key)) B"
proof -
  have "SM4_Decrypt T key (SM4_Encrypt T key B) = B"
    unfolding SM4_Decrypt_rounds SM4_Encrypt_rounds by (rule SM4_rounds_inverse [OF assms])
  then show ?thesis
    by (intro conjI length_SM4_KeySchedule SM4_Encrypt_rounds SM4_Decrypt_rounds)
qed

theorem SM4_Decrypt_Encrypt_witness:
  "length [0x01, 0x23, 0x45, 0x67, 0x89, 0xab, 0xcd, 0xef,
           0xfe, 0xdc, 0xba, 0x98, 0x76, 0x54, 0x32, 0x10 :: u8] = 16
   \<and> SM4_Decrypt sample_sm4_tables (replicate 16 0x5a)
        (SM4_Encrypt sample_sm4_tables (replicate 16 0x5a)
          [0x01, 0x23, 0x45, 0x67, 0x89, 0xab, 0xcd, 0xef,
           0xfe, 0xdc, 0xba, 0x98, 0x76, 0x54, 0x32, 0x10])
       = [0x01, 0x23, 0x45, 0x67, 0x89, 0xab, 0xcd, 0xef,
          0xfe, 0xdc, 0xba, 0x98, 0x76, 0x54, 0x32, 0x10]"
proof -
  have h: "length [0x01, 0x23, 0x45, 0x67, 0x89, 0xab, 0xcd, 0xef,
           0xfe, 0xdc, 0xba, 0x98, 0x76, 0x54, 0x32, 0x10 :: u8] = 16"
    by simp
  note t = SM4_Decrypt_Encrypt [OF h, of sample_sm4_tables "replicate 16 0x5a"]
  show ?thesis
    by (intro conjI h t [THEN conjunct1])
qed

section \<open>Big numbers: bytes, division and the modular inverse\<close>

lemma bytes_to_big_snoc_aux:
  "foldl (\<lambda>x c. x * 256 + uint (c::u8)) a (bs @ [c]) = foldl (\<lambda>x c. x * 256 + uint c) a bs * 256 + uint c"
  by simp

lemma foldl_bytes_nonneg: "0 \<le> a \<Longrightarrow> 0 \<le> foldl (\<lambda>x c. x * 256 + uint (c::u8)) a bs"
  by (induction bs arbitrary: a) simp_all

lemma bytes_to_big_nonneg: "0 \<le> bytes_to_big len ptr"
  by (simp add: bytes_to_big_def foldl_bytes_nonneg)

lemma foldl_bytes_less:
  "0 \<le> a \<Longrightarrow> a < 256 ^ m \<Longrightarrow>
   foldl (\<lambda>x c. x * 256 + uint (c::u8)) a bs < 256 ^ (m + length bs)"
proof (induction bs arbitrary: a m)
  case Nil
  then show ?case by simp
next
  case (Cons c bs)
  have c: "uint c < 256" using uint_bounded [of c] by simp
  have "a + 1 \<le> 256 ^ m" using Cons.prems by simp
  then have "(a + 1) * 256 \<le> 256 ^ m * 256" by (rule mult_right_mono) simp
  then have "a * 256 + uint c < 256 ^ Suc m" using c by (simp add: algebra_simps)
  moreover have "0 \<le> a * 256 + uint c" using Cons.prems by simp
  ultimately show ?case using Cons.IH [of "a * 256 + uint c" "Suc m"] by simp
qed

lemma bytes_to_big_less: "bytes_to_big len ptr < 256 ^ len"
proof -
  have "bytes_to_big len ptr < 256 ^ (0 + length (take len ptr))"
    unfolding bytes_to_big_def by (rule foldl_bytes_less) simp_all
  also have "\<dots> \<le> (256::int) ^ len"
    by (rule power_increasing) simp_all
  finally show ?thesis .
qed

lemma length_big_to_bytes [simp]: "length (big_to_bytes len x) = len"
  by (simp add: big_to_bytes_def)

lemma big_to_bytes_Suc:
  "big_to_bytes (Suc len) x = big_to_bytes len (x div 256) @ [word_of_int x]"
proof -
  have "map (\<lambda>i. word_of_int (x div 256 ^ (Suc len - 1 - i)) :: u8) [0..<len]
      = map (\<lambda>i. word_of_int (x div 256 div 256 ^ (len - 1 - i))) [0..<len]"
  proof (rule map_cong [OF refl])
    fix i assume "i \<in> set [0..<len]"
    then have "Suc len - 1 - i = Suc (len - 1 - i)" by auto
    then show "(word_of_int (x div 256 ^ (Suc len - 1 - i)) :: u8)
        = word_of_int (x div 256 div 256 ^ (len - 1 - i))"
      by (simp add: zdiv_zmult2_eq)
  qed
  then show ?thesis by (simp add: big_to_bytes_def)
qed

lemma bytes_to_big_big_to_bytes:
  "0 \<le> x \<Longrightarrow> x < 256 ^ len \<Longrightarrow> bytes_to_big len (big_to_bytes len x) = x"
proof (induction len arbitrary: x)
  case 0
  then show ?case by (simp add: bytes_to_big_def big_to_bytes_def)
next
  case (Suc len)
  have d: "0 \<le> x div 256" "x div 256 < 256 ^ len"
    using Suc.prems by (simp_all add: div_less_iff_less_mult algebra_simps)
  have ih: "foldl (\<lambda>x c. x * 256 + uint (c::u8)) 0 (big_to_bytes len (x div 256)) = x div 256"
    using Suc.IH [OF d] by (simp add: bytes_to_big_def)
  have u: "uint (word_of_int x :: u8) = x mod 256"
    by (simp add: uint_word_of_int take_bit_eq_mod)
  show ?case
    by (simp add: bytes_to_big_def big_to_bytes_Suc ih u)
qed

lemma mod_diff_mult_eq:
  "(a - q * c) mod n = (a mod n - q * (c mod n)) mod (n::int)"
proof -
  have "(a - q * c) mod n = (a mod n - (q * c) mod n) mod n"
    by (simp add: mod_diff_eq)
  also have "(q * c) mod n = (q * (c mod n)) mod n"
    by (simp add: mod_mult_right_eq)
  also have "(a mod n - (q * (c mod n)) mod n) mod n = (a mod n - q * (c mod n)) mod n"
    by (simp add: mod_diff_right_eq)
  finally show ?thesis .
qed

lemma xgcd_loop_invariant:
  assumes "0 \<le> r0" and "0 \<le> r1"
    and "(s0 * x) mod n = r0 mod n" and "(s1 * x) mod n = r1 mod n"
    and "xgcd_loop r0 r1 s0 s1 = (g, s)"
  shows "(s * x) mod n = g mod n \<and> g = gcd r0 r1"
  using assms
proof (induction r0 r1 s0 s1 rule: xgcd_loop.induct)
  case (1 r0 r1 s0 s1)
  show ?case
  proof (cases "r1 = 0")
    case True
    then have "g = r0" "s = s0" using "1.prems"(5) by (simp_all add: xgcd_loop.simps)
    then show ?thesis using True "1.prems" by simp
  next
    case False
    then have pos: "0 < r1" using "1.prems"(2) by simp
    have a: "0 \<le> r0 mod r1" using pos by simp
    have "(s0 - r0 div r1 * s1) * x = s0 * x - r0 div r1 * (s1 * x)"
      by (simp add: algebra_simps)
    also have "\<dots> mod n = (s0 * x mod n - r0 div r1 * (s1 * x mod n)) mod n"
      by (rule mod_diff_mult_eq)
    also have "\<dots> = (r0 - r0 div r1 * r1) mod n"
      unfolding "1.prems"(3,4) by (rule mod_diff_mult_eq [symmetric])
    also have "r0 - r0 div r1 * r1 = r0 mod r1"
      by (simp add: minus_div_mult_eq_mod)
    finally have b: "(s0 - r0 div r1 * s1) * x mod n = r0 mod r1 mod n" .
    have c: "xgcd_loop r1 (r0 mod r1) s1 (s0 - r0 div r1 * s1) = (g, s)"
      using "1.prems"(5) False by (subst (asm) xgcd_loop.simps) simp
    have "(s * x) mod n = g mod n \<and> g = gcd r1 (r0 mod r1)"
      by (rule "1.IH" [OF False "1.prems"(2) a "1.prems"(4) b c])
    then show ?thesis by (simp add: gcd.commute [of r0 r1] gcd_red_int [symmetric])
  qed
qed

lemma xgcd_inverse:
  assumes "0 \<le> x" and "1 < n" and "coprime x n"
  shows "(x * xgcd x n) mod n = 1" and "0 \<le> xgcd x n" and "xgcd x n < n"
proof -
  obtain g s where l: "xgcd_loop x n 1 0 = (g, s)" by (cases "xgcd_loop x n 1 0")
  have "(s * x) mod n = g mod n \<and> g = gcd x n"
    by (rule xgcd_loop_invariant [OF assms(1) _ _ _ l]) (use assms(2) in simp_all)
  then have "(s * x) mod n = 1" using assms(2,3) by simp
  then have "(x * (s mod n)) mod n = 1"
    by (simp add: mod_mult_right_eq mult.commute)
  then show "(x * xgcd x n) mod n = 1" by (simp add: xgcd_def l)
  show "0 \<le> xgcd x n" "xgcd x n < n"
    using assms(2) by (simp_all add: xgcd_def)
qed

lemma c_rem_mod: "0 \<le> a \<Longrightarrow> 0 < b \<Longrightarrow> c_rem a b = a mod b"
  by (cases "a = 0") (simp_all add: c_rem_def c_div_def minus_mult_div_eq_mod)

lemma divide_nonneg: "0 \<le> a \<Longrightarrow> 0 < b \<Longrightarrow> divide a b = (a mod b, a div b)"
  by (cases "a = 0") (simp_all add: divide_def c_rem_def c_div_def minus_mult_div_eq_mod)

lemma SM2_n_value:
  "bytes_to_big SM2_NUMWORD SM2_n = 0xFFFFFFFEFFFFFFFFFFFFFFFFFFFFFFFF7203DF6B21C6052B53BBF40939D54123"
  by (simp add: bytes_to_big_def SM2_n_def SM2_NUMWORD_def)

section \<open>SM2 signature and verification\<close>

lemma SM2_Init_Inr:
  assumes "SM2_Init MIRACL = Inr g"
  shows "sv_n g = bytes_to_big SM2_NUMWORD SM2_n"
    and "sv_curve g = MIRACL (bytes_to_big SM2_NUMWORD SM2_a) (bytes_to_big SM2_NUMWORD SM2_b)
           (bytes_to_big SM2_NUMWORD SM2_p)"
    and "epoint_set (sv_curve g) (bytes_to_big SM2_NUMWORD SM2_Gx) (bytes_to_big SM2_NUMWORD SM2_Gy)
           = Some (sv_G g)"
    and "point_at_infinity (sv_curve g) (ecurve_mult (sv_curve g) (sv_n g) (sv_G g))"
  using assms
  by (auto simp: SM2_Init_def Let_def split: option.splits if_splits)

lemma sv_n_gt_1: "SM2_Init MIRACL = Inr g \<Longrightarrow> 1 < sv_n g"
  by (simp add: SM2_Init_Inr(1) SM2_n_value)

lemma sv_n_less: "SM2_Init MIRACL = Inr g \<Longrightarrow> sv_n g < 256 ^ 32"
  by (simp add: SM2_Init_Inr(1) SM2_n_value)

lemma mod_mult_diff_add_self:
  "(z * (k - m mod n + n)) mod n = (z * (k - m)) mod (n::int)"
proof -
  have "(k - m mod n + n) mod n = (k - m) mod n"
    by (metis mod_add_self2 mod_diff_right_eq)
  then show ?thesis
    by (metis mod_mult_right_eq)
qed

lemma SM2_Sign_result:
  assumes init: "SM2_Init MIRACL = Inr g"
    and e: "e = bytes_to_big 32 (H (take 32 ZA @ message))"
    and k: "k = bytes_to_big 32 rand"
    and dA: "dA = bytes_to_big 32 d"
    and get: "epoint_get (sv_curve g) (ecurve_mult (sv_curve g) k (sv_G g)) = (x1, y1)"
    and x1: "0 \<le> x1"
    and r: "r = (e + x1) mod sv_n g"
    and s: "s = (xgcd (1 + dA) (sv_n g) * (k - r * dA)) mod sv_n g"
  shows "SM2_Sign MIRACL H message ZA rand d =
      (if r = 0 \<or> r + k = sv_n g then Inl ERR_GENERATE_R
       else if s = 0 then Inl ERR_GENERATE_S
       else Inr (big_to_bytes 32 r, big_to_bytes 32 s))"
proof -
  define n where "n = sv_n g"
  have n1: "1 < n" using sv_n_gt_1 [OF init] by (simp add: n_def)
  have e0: "0 \<le> e" and k0: "0 \<le> k" and d0: "0 \<le> dA"
    by (simp_all add: e k dA bytes_to_big_nonneg)
  have r0: "0 \<le> r" and rn: "r < n" using n1 by (simp_all add: r n_def)
  have d1: "divide (e + x1) n = (r, (e + x1) div n)"
    using e0 x1 n1 by (simp add: divide_nonneg r n_def)
  have d2: "divide (r * dA) n = ((r * dA) mod n, (r * dA) div n)"
    using r0 d0 n1 by (simp add: divide_nonneg)
  define z1 where "z1 = xgcd (dA + 1) n"
  have z10: "0 \<le> z1" using n1 by (simp add: z1_def xgcd_def)
  have z20: "0 \<le> k - (r * dA) mod n + n"
  proof -
    have "(r * dA) mod n < n" using n1 by simp
    then show ?thesis using k0 by linarith
  qed
  have ms: "(z1 * (k - (r * dA) mod n + n)) mod n = s"
    unfolding s z1_def n_def [symmetric] add.commute [of 1 dA]
    by (rule mod_mult_diff_add_self)
  have "0 \<le> z1 * (k - (r * dA) mod n + n)"
    using z10 z20 by simp
  then have d3: "divide (z1 * (k - (r * dA) mod n + n)) n = (s, (z1 * (k - (r * dA) mod n + n)) div n)"
    using n1 by (simp only: divide_nonneg ms) 
  show ?thesis
    unfolding SM2_Sign_def init sum.case Let_def
      e [symmetric] k [symmetric] dA [symmetric, unfolded SM2_NUMWORD_def, simplified]
    by (simp add: SM2_NUMWORD_def dA [symmetric] get n_def [symmetric] d1 d2 d3 z1_def [symmetric]
        Test_Zero_def Test_n_def)
qed

lemma SM2_Verify_result:
  assumes init: "SM2_Init MIRACL = Inr g"
    and set: "epoint_set (sv_curve g) (bytes_to_big 32 Px) (bytes_to_big 32 Py) = Some PA"
    and r: "r = bytes_to_big 32 R" and s: "s = bytes_to_big 32 S"
    and e: "e = bytes_to_big 32 (H (take 32 ZA @ message))"
    and t: "t = (r + s) mod sv_n g"
    and get: "epoint_get (sv_curve g)
        (ecurve_add (sv_curve g) (ecurve_mult (sv_curve g) s (sv_G g))
           (ecurve_mult (sv_curve g) t PA)) = (x1, y1)"
    and x1: "0 \<le> x1"
  shows "SM2_Verify MIRACL H message ZA Px Py R S =
      (if r < 1 \<or> r > sv_n g - 1 then Inl ERR_OUTRANGE_R
       else if s < 1 \<or> s > sv_n g - 1 then Inl ERR_OUTRANGE_S
       else if t = 0 then Inl ERR_GENERATE_T
       else if (e + x1) mod sv_n g = r then Inr ()
       else Inl ERR_DATA_MEMCMP)"
proof -
  define n where "n = sv_n g"
  have n1: "1 < n" using sv_n_gt_1 [OF init] by (simp add: n_def)
  have e0: "0 \<le> e" and r0: "0 \<le> r" and s0: "0 \<le> s"
    by (simp_all add: e r s bytes_to_big_nonneg)
  have d1: "divide (r + s) n = (t, (r + s) div n)"
    using r0 s0 n1 by (simp add: divide_nonneg t n_def)
  have d2: "divide (e + x1) n = ((e + x1) mod n, (e + x1) div n)"
    using e0 x1 n1 by (simp add: divide_nonneg)
  show ?thesis
    unfolding SM2_Verify_def init sum.case Let_def
    by (simp add: SM2_NUMWORD_def set r [symmetric] s [symmetric] e [symmetric]
        n_def [symmetric] d1 d2 get Test_Zero_def Test_Range_def)
qed

lemma group_laws_pos: "group_laws C n G \<Longrightarrow> 0 < n"
  unfolding group_laws_def by (rule conjunct1)

lemma group_laws_add:
  assumes "group_laws C n G" and "0 \<le> a" and "0 \<le> b"
  shows "ecurve_add C (ecurve_mult C a G) (ecurve_mult C b G) = ecurve_mult C (a + b) G"
proof -
  have "\<forall>a b. 0 \<le> a \<and> 0 \<le> b \<longrightarrow>
      ecurve_add C (ecurve_mult C a G) (ecurve_mult C b G) = ecurve_mult C (a + b) G"
    using assms(1) unfolding group_laws_def by (elim conjE)
  then show ?thesis using assms(2,3) by (elim allE [of _ a] allE [of _ b] impE) (intro conjI)
qed

lemma group_laws_mult:
  assumes "group_laws C n G" and "0 \<le> a" and "0 \<le> b"
  shows "ecurve_mult C a (ecurve_mult C b G) = ecurve_mult C (a * b) G"
proof -
  have "\<forall>a b. 0 \<le> a \<and> 0 \<le> b \<longrightarrow>
      ecurve_mult C a (ecurve_mult C b G) = ecurve_mult C (a * b) G"
    using assms(1) unfolding group_laws_def by (elim conjE)
  then show ?thesis using assms(2,3) by (elim allE [of _ a] allE [of _ b] impE) (intro conjI)
qed

lemma group_laws_cong:
  assumes "group_laws C n G" and "0 \<le> a" and "0 \<le> b" and "a mod n = b mod n"
  shows "ecurve_mult C a G = ecurve_mult C b G"
proof -
  have "\<forall>a b. 0 \<le> a \<and> 0 \<le> b \<and> a mod n = b mod n \<longrightarrow>
      ecurve_mult C a G = ecurve_mult C b G"
    using assms(1) unfolding group_laws_def by (elim conjE)
  then show ?thesis using assms(2,3,4) by (elim allE [of _ a] allE [of _ b] impE) (intro conjI)
qed

lemma group_laws_infinity:
  assumes "group_laws C n G" and "0 \<le> a"
  shows "point_at_infinity C (ecurve_mult C a G) = (a mod n = 0)"
proof -
  have "\<forall>a. 0 \<le> a \<longrightarrow> point_at_infinity C (ecurve_mult C a G) = (a mod n = 0)"
    using assms(1) unfolding group_laws_def by (elim conjE)
  then show ?thesis using assms(2) by (elim allE [of _ a] impE)
qed

lemma group_laws_coords:
  assumes "group_laws C n G" and "0 \<le> a" and "a mod n \<noteq> 0"
    and "epoint_get C (ecurve_mult C a G) = (x, y)"
  shows "0 \<le> x" "x < 2 ^ 256" "0 \<le> y" "y < 2 ^ 256" "epoint_set C x y = Some (ecurve_mult C a G)"
proof -
  have "\<forall>a. 0 \<le> a \<and> a mod n \<noteq> 0 \<longrightarrow>
      (case epoint_get C (ecurve_mult C a G) of (x, y) \<Rightarrow>
        0 \<le> x \<and> x < 2 ^ 256 \<and> 0 \<le> y \<and> y < 2 ^ 256 \<and> epoint_set C x y = Some (ecurve_mult C a G))"
    using assms(1) unfolding group_laws_def by (elim conjE)
  then have "case epoint_get C (ecurve_mult C a G) of (x, y) \<Rightarrow>
      0 \<le> x \<and> x < 2 ^ 256 \<and> 0 \<le> y \<and> y < 2 ^ 256 \<and> epoint_set C x y = Some (ecurve_mult C a G)"
    using assms(2,3) by (elim allE [of _ a] impE) (intro conjI)
  then have c: "0 \<le> x \<and> x < 2 ^ 256 \<and> 0 \<le> y \<and> y < 2 ^ 256 \<and> epoint_set C x y = Some (ecurve_mult C a G)"
    unfolding assms(4) prod.case .
  show "0 \<le> x" using c by (elim conjE)
  show "x < 2 ^ 256" using c by (elim conjE)
  show "0 \<le> y" using c by (elim conjE)
  show "y < 2 ^ 256" using c by (elim conjE)
  show "epoint_set C x y = Some (ecurve_mult C a G)" using c by (elim conjE)
qed

lemma group_laws_of_init:
  assumes "sv_miracl_ok MIRACL" and "SM2_Init MIRACL = Inr g"
  shows "group_laws (sv_curve g) (sv_n g) (sv_G g)"
proof -
  note i = SM2_Init_Inr [OF assms(2)]
  have "case epoint_set (sv_curve g) (bytes_to_big SM2_NUMWORD SM2_Gx) (bytes_to_big SM2_NUMWORD SM2_Gy) of
      None \<Rightarrow> False | Some G \<Rightarrow> group_laws (sv_curve g) (sv_n g) G"
    using assms(1) unfolding sv_miracl_ok_def Let_def i(1,2) .
  then show ?thesis unfolding i(3) by simp
qed

lemma sign_congruences:
  fixes n :: int
  assumes n1: "1 < n"
    and inv: "((1 + dA) * z) mod n = 1"
    and s: "s = (z * (k - r * dA)) mod n"
    and t: "t = (r + s) mod n"
  shows "(s + t * dA) mod n = k mod n" and "n dvd (1 + dA) * (r + s) - (r + k)"
proof -
  have "1 mod n = 1" using n1 by simp
  then have "((1 + dA) * z) mod n = 1 mod n" using inv by simp
  then have a: "n dvd (1 + dA) * z - 1"
    by (simp only: mod_eq_dvd_iff)
  have "s mod n = (z * (k - r * dA)) mod n" unfolding s by simp
  then have b: "n dvd s - z * (k - r * dA)"
    by (simp only: mod_eq_dvd_iff)
  have "t mod n = (r + s) mod n" unfolding t by simp
  then have c: "n dvd t - (r + s)"
    by (simp only: mod_eq_dvd_iff)
  have d1: "n dvd (1 + dA) * (s - z * (k - r * dA))" by (rule dvd_mult [OF b])
  have d2: "n dvd ((1 + dA) * z - 1) * (k - r * dA)" by (rule dvd_mult2 [OF a])
  have d: "n dvd (1 + dA) * (s - z * (k - r * dA)) + ((1 + dA) * z - 1) * (k - r * dA)"
    by (rule dvd_add [OF d1 d2])
  have c': "n dvd (t - (r + s)) * dA" by (rule dvd_mult2 [OF c])
  have "n dvd (t - (r + s)) * dA + ((1 + dA) * (s - z * (k - r * dA)) + ((1 + dA) * z - 1) * (k - r * dA))"
    by (rule dvd_add [OF c' d])
  also have "(t - (r + s)) * dA + ((1 + dA) * (s - z * (k - r * dA)) + ((1 + dA) * z - 1) * (k - r * dA))
      = s + t * dA - k"
    by algebra
  finally show "(s + t * dA) mod n = k mod n"
    by (simp only: mod_eq_dvd_iff)
  have "(1 + dA) * (r + s) - (r + k) =
      (1 + dA) * (s - z * (k - r * dA)) + ((1 + dA) * z - 1) * (k - r * dA)"
    by algebra
  then show "n dvd (1 + dA) * (r + s) - (r + k)"
    using d by simp
qed

section \<open>The stand-in for MIRACL\<close>

lemma toy_epoint_set_G:
  "epoint_set toy_curve (bytes_to_big SM2_NUMWORD SM2_Gx) (bytes_to_big SM2_NUMWORD SM2_Gy) = Some 1"
  by code_simp

lemma toy_order_G:
  "point_at_infinity toy_curve (ecurve_mult toy_curve (bytes_to_big SM2_NUMWORD SM2_n) 1)"
  by code_simp

lemma toy_Init: "SM2_Init toy_miracl = Inr toy_globals"
  unfolding SM2_Init_def toy_miracl_def Let_def toy_epoint_set_G option.case
  by (simp only: toy_order_G toy_globals_def not_True_eq_False if_False)

lemma toy_globals_sel:
  "sv_curve toy_globals = toy_curve" "sv_G toy_globals = 1"
  "sv_n toy_globals = 0xFFFFFFFEFFFFFFFFFFFFFFFFFFFFFFFF7203DF6B21C6052B53BBF40939D54123"
  by (simp_all add: toy_globals_def SM2_n_value)

lemma SM2_curve_values:
  "bytes_to_big SM2_NUMWORD SM2_p = 0xFFFFFFFEFFFFFFFFFFFFFFFFFFFFFFFFFFFFFFFF00000000FFFFFFFFFFFFFFFF"
  "bytes_to_big SM2_NUMWORD SM2_Gx = 0x32C4AE2C1F1981195F9904466A39C9948FE30BBFF2660BE1715A4589334C74C7"
  "bytes_to_big SM2_NUMWORD SM2_Gy = 0xBC3736A2F4F6779C59BDCEE36B692153D0A9877CC62A474002DF32E52139F0A0"
  by (simp_all add: bytes_to_big_def SM2_p_def SM2_Gx_def SM2_Gy_def SM2_NUMWORD_def)

lemma toy_group_laws: "group_laws toy_curve (bytes_to_big SM2_NUMWORD SM2_n) 1"
proof -
  define n :: int where "n = 0xFFFFFFFEFFFFFFFFFFFFFFFFFFFFFFFF7203DF6B21C6052B53BBF40939D54123"
  define p :: int where "p = 0xFFFFFFFEFFFFFFFFFFFFFFFFFFFFFFFFFFFFFFFF00000000FFFFFFFFFFFFFFFF"
  define Gx :: int where "Gx = 0x32C4AE2C1F1981195F9904466A39C9948FE30BBFF2660BE1715A4589334C74C7"
  define Gy :: int where "Gy = 0xBC3736A2F4F6779C59BDCEE36B692153D0A9877CC62A474002DF32E52139F0A0"
  have b: "0 < n" "n < p" "0 \<le> Gy" "Gy < 2 ^ 256" "p < 2 ^ 256"
    by (simp_all add: n_def p_def Gy_def)
  have mult: "ecurve_mult toy_curve k P = (k * P) mod n" for k P
    by (simp add: toy_curve_def Let_def SM2_n_value n_def)
  have add: "ecurve_add toy_curve P Q = (P + Q) mod n" for P Q
    by (simp add: toy_curve_def Let_def SM2_n_value n_def)
  have inf: "point_at_infinity toy_curve P = (P = 0)" for P
    by (simp add: toy_curve_def Let_def)
  have get: "epoint_get toy_curve P = (if P = 0 then (0, 0) else ((Gx + P - 1) mod p, Gy))" for P
    by (simp add: toy_curve_def Let_def SM2_curve_values Gx_def Gy_def p_def)
  have set: "epoint_set toy_curve x y =
      (if y = Gy \<and> 0 \<le> x \<and> x < p
       then (let i = (x - Gx + 1) mod p in if 1 \<le> i \<and> i < n then Some i else None)
       else None)" for x y
    by (simp add: toy_curve_def Let_def SM2_curve_values SM2_n_value Gx_def Gy_def p_def n_def)
  have l1: "ecurve_add toy_curve (ecurve_mult toy_curve a 1) (ecurve_mult toy_curve b 1)
      = ecurve_mult toy_curve (a + b) 1" for a b
    by (simp add: mult add mod_add_eq)
  have l2: "ecurve_mult toy_curve a (ecurve_mult toy_curve b 1) = ecurve_mult toy_curve (a * b) 1" for a b
    by (simp add: mult mod_mult_right_eq)
  have l3: "a mod n = b mod n \<Longrightarrow> ecurve_mult toy_curve a 1 = ecurve_mult toy_curve b 1" for a b
    by (simp add: mult)
  have l4: "point_at_infinity toy_curve (ecurve_mult toy_curve a 1) = (a mod n = 0)" for a
    by (simp add: mult inf)
  have l5: "case epoint_get toy_curve (ecurve_mult toy_curve a 1) of (x, y) \<Rightarrow>
      0 \<le> x \<and> x < 2 ^ 256 \<and> 0 \<le> y \<and> y < 2 ^ 256
      \<and> epoint_set toy_curve x y = Some (ecurve_mult toy_curve a 1)" if "a mod n \<noteq> 0" for a
  proof -
    define P where "P = a mod n"
    have "0 \<le> P" "P < n" "P \<noteq> 0"
      using that b(1) by (simp_all add: P_def)
    then have P: "1 \<le> P" "P < n" "P \<noteq> 0"
      by linarith+
    define x where "x = (Gx + P - 1) mod p"
    have p0: "0 < p" using b(1,2) by simp
    have x: "0 \<le> x" "x < p" using p0 by (simp_all add: x_def)
    have "x - Gx + 1 = (Gx + P - 1) mod p + (1 - Gx)"
      by (simp add: x_def)
    then have "(x - Gx + 1) mod p = ((Gx + P - 1) mod p + (1 - Gx)) mod p"
      by (rule arg_cong)
    also have "\<dots> = ((Gx + P - 1) + (1 - Gx)) mod p"
      by (rule mod_add_left_eq)
    also have "(Gx + P - 1) + (1 - Gx) = P"
      by simp
    also have "P mod p = P"
      using P b(2) by simp
    finally have i: "(x - Gx + 1) mod p = P" .
    have "epoint_set toy_curve x Gy = Some P"
      unfolding set using x P i by (simp add: Let_def)
    then show ?thesis
      using x b P by (simp add: mult get P_def [symmetric] x_def [symmetric])
  qed
  show ?thesis
    unfolding group_laws_def SM2_n_value n_def [symmetric]
  proof (intro conjI allI impI)
    show "0 < n" by (rule b(1))
  next
    fix a b :: int
    show "ecurve_add toy_curve (ecurve_mult toy_curve a 1) (ecurve_mult toy_curve b 1)
      = ecurve_mult toy_curve (a + b) 1"
      by (rule l1)
    show "ecurve_mult toy_curve a (ecurve_mult toy_curve b 1) = ecurve_mult toy_curve (a * b) 1"
      by (rule l2)
    assume "0 \<le> a \<and> 0 \<le> b \<and> a mod n = b mod n"
    then have "a mod n = b mod n" by (elim conjE)
    then show "ecurve_mult toy_curve a 1 = ecurve_mult toy_curve b 1"
      by (rule l3)
  next
    fix a :: int
    show "point_at_infinity toy_curve (ecurve_mult toy_curve a 1) = (a mod n = 0)"
      by (rule l4)
    assume "0 \<le> a \<and> a mod n \<noteq> 0"
    then have "a mod n \<noteq> 0" by (elim conjE)
    then show "case epoint_get toy_curve (ecurve_mult toy_curve a 1) of (x, y) \<Rightarrow>
      0 \<le> x \<and> x < 2 ^ 256 \<and> 0 \<le> y \<and> y < 2 ^ 256
      \<and> epoint_set toy_curve x y = Some (ecurve_mult toy_curve a 1)"
      by (rule l5)
  qed
qed

lemma toy_miracl_ok: "sv_miracl_ok toy_miracl"
  unfolding sv_miracl_ok_def toy_miracl_def Let_def toy_epoint_set_G option.case
  by (rule toy_group_laws)

lemma toy_Sign:
  "SM2_Sign toy_miracl toy_sm3 [0x6d, 0x65, 0x73] (replicate 32 0x11)
       (big_to_bytes 32 3) (big_to_bytes 32 2)
     = Inr (big_to_bytes 32 63830942748642766591328114306792865585839032471450051337242577431630791246316,
            big_to_bytes 32 34640764307808988110061487271485351453481727502338462153734154616441765199739)"
proof -
  have e: "40867796201405716031848582944242791007036465176108434366867382591026651630883 = bytes_to_big 32 (toy_sm3 (take 32 (replicate 32 0x11) @ [0x6d, 0x65, 0x73]))"
    by code_simp
  have k: "3 = bytes_to_big 32 (big_to_bytes 32 3)"
    by code_simp
  have d: "2 = bytes_to_big 32 (big_to_bytes 32 2)"
    by code_simp
  have get: "epoint_get (sv_curve toy_globals)
      (ecurve_mult (sv_curve toy_globals) 3 (sv_G toy_globals)) = (22963146547237050559479531362550074578802567295341616970375194840604139615433, 85132369209828568825618990617112496413088388631904505083283536607588877201568)"
    unfolding toy_globals_sel by code_simp
  have x1: "(0::int) \<le> 22963146547237050559479531362550074578802567295341616970375194840604139615433"
    by simp
  have z: "xgcd (1 + 2) 115792089210356248756420345214020892766061623724957744567843809356293439045923 = 77194726140237499170946896809347261844041082483305163045229206237528959363949"
    by code_simp
  have r: "63830942748642766591328114306792865585839032471450051337242577431630791246316 = (40867796201405716031848582944242791007036465176108434366867382591026651630883 + 22963146547237050559479531362550074578802567295341616970375194840604139615433) mod sv_n toy_globals"
    unfolding toy_globals_sel by simp
  have s: "34640764307808988110061487271485351453481727502338462153734154616441765199739 = (xgcd (1 + 2) (sv_n toy_globals) * (3 - 63830942748642766591328114306792865585839032471450051337242577431630791246316 * 2)) mod sv_n toy_globals"
    unfolding toy_globals_sel z by simp
  show ?thesis
    unfolding SM2_Sign_result [where H = toy_sm3 and ZA = "replicate 32 0x11"
      and message = "[0x6d, 0x65, 0x73]", OF toy_Init e k d get x1 r s] toy_globals_sel
    by simp
qed

section \<open>The results of SM2_Sign and SM2_Verify\<close>

text \<open>
  Claim C5.  After a successful \<open>SM2_Init\<close>, with \<open>e\<close> the big-endian number of
  \<open>SM3(ZA || M)\<close>, \<open>(x1, y1) = k * G\<close> and \<open>r = (e + x1) mod n\<close>: \<open>SM2_Sign\<close> returns
  \<open>ERR_GENERATE_R\<close> exactly when \<open>r = 0\<close> or \<open>r + k = n\<close>; otherwise, with
  \<open>s = ((1 + d)\<^sup>-\<^sup>1 * (k - r * d)) mod n\<close>, it returns \<open>ERR_GENERATE_S\<close> exactly when \<open>s = 0\<close>;
  otherwise it returns 0 with \<open>r\<close> and \<open>s\<close> written as 32 big-endian bytes.  The number
  \<open>(1 + d)\<^sup>-\<^sup>1\<close> is the result of \<open>xgcd\<close>, the inverse of \<open>1 + d\<close> modulo \<open>n\<close> when there is one.
\<close>

theorem SM2_Sign_spec:
  assumes "SM2_Init MIRACL = Inr g"
    and "n = sv_n g"
    and "e = bytes_to_big 32 (H (take 32 ZA @ message))"
    and "k = bytes_to_big 32 rand"
    and "dA = bytes_to_big 32 d"
    and "epoint_get (sv_curve g) (ecurve_mult (sv_curve g) k (sv_G g)) = (x1, y1)"
    and "0 \<le> x1"
    and "r = (e + x1) mod n"
    and "z = xgcd (1 + dA) n"
    and "s = (z * (k - r * dA)) mod n"
  shows "SM2_Sign MIRACL H message ZA rand d =
           (if r = 0 \<or> r + k = n then Inl ERR_GENERATE_R
            else if s = 0 then Inl ERR_GENERATE_S
            else Inr (big_to_bytes 32 r, big_to_bytes 32 s))
    \<and> (coprime (1 + dA) n \<longrightarrow> ((1 + dA) * z) mod n = 1)
    \<and> length (big_to_bytes 32 r) = 32 \<and> bytes_to_big 32 (big_to_bytes 32 r) = r
    \<and> length (big_to_bytes 32 s) = 32 \<and> bytes_to_big 32 (big_to_bytes 32 s) = s"
proof -
  have n1: "1 < n" and n2: "n < 256 ^ 32"
    using sv_n_gt_1 [OF assms(1)] sv_n_less [OF assms(1)] by (simp_all add: assms(2))
  have a: "SM2_Sign MIRACL H message ZA rand d =
           (if r = 0 \<or> r + k = n then Inl ERR_GENERATE_R
            else if s = 0 then Inl ERR_GENERATE_S
            else Inr (big_to_bytes 32 r, big_to_bytes 32 s))"
    unfolding assms(2)
    by (rule SM2_Sign_result [where H = H and ZA = ZA and message = message, OF assms(1,3,4,5,6,7) assms(8) [unfolded assms(2)]
          assms(10) [unfolded assms(9) assms(2)]])
  have d0: "0 \<le> 1 + dA" by (simp add: assms(5) bytes_to_big_nonneg)
  have b: "coprime (1 + dA) n \<longrightarrow> ((1 + dA) * z) mod n = 1"
    unfolding assms(9) using xgcd_inverse(1) [OF d0 n1] by (rule impI)
  have r: "0 \<le> r" "r < 256 ^ 32" and s: "0 \<le> s" "s < 256 ^ 32"
    using n1 n2 unfolding assms(8) assms(10)
    by (simp_all add: pos_mod_bound [THEN less_trans])
  show ?thesis
    by (intro conjI a b length_big_to_bytes bytes_to_big_big_to_bytes r s)
qed

theorem SM2_Sign_spec_witness:
  "SM2_Init toy_miracl = Inr toy_globals
   \<and> (0::int) \<le> 22963146547237050559479531362550074578802567295341616970375194840604139615433
   \<and> coprime (1 + 2) (115792089210356248756420345214020892766061623724957744567843809356293439045923::int)
   \<and> SM2_Sign toy_miracl toy_sm3 [0x6d, 0x65, 0x73] (replicate 32 0x11)
         (big_to_bytes 32 3) (big_to_bytes 32 2)
       = Inr (big_to_bytes 32 63830942748642766591328114306792865585839032471450051337242577431630791246316,
              big_to_bytes 32 34640764307808988110061487271485351453481727502338462153734154616441765199739)
   \<and> ((1 + 2) * 77194726140237499170946896809347261844041082483305163045229206237528959363949) mod (115792089210356248756420345214020892766061623724957744567843809356293439045923::int) = 1"
proof -
  have n: "115792089210356248756420345214020892766061623724957744567843809356293439045923 = sv_n toy_globals"
    by (simp add: toy_globals_sel)
  have e: "40867796201405716031848582944242791007036465176108434366867382591026651630883 = bytes_to_big 32 (toy_sm3 (take 32 (replicate 32 0x11) @ [0x6d, 0x65, 0x73]))"
    by code_simp
  have k: "3 = bytes_to_big 32 (big_to_bytes 32 3)"
    by code_simp
  have d: "2 = bytes_to_big 32 (big_to_bytes 32 2)"
    by code_simp
  have get: "epoint_get (sv_curve toy_globals)
      (ecurve_mult (sv_curve toy_globals) 3 (sv_G toy_globals)) = (22963146547237050559479531362550074578802567295341616970375194840604139615433, 85132369209828568825618990617112496413088388631904505083283536607588877201568)"
    unfolding toy_globals_sel by code_simp
  have x1: "(0::int) \<le> 22963146547237050559479531362550074578802567295341616970375194840604139615433"
    by simp
  have r: "63830942748642766591328114306792865585839032471450051337242577431630791246316 = (40867796201405716031848582944242791007036465176108434366867382591026651630883 + 22963146547237050559479531362550074578802567295341616970375194840604139615433) mod (115792089210356248756420345214020892766061623724957744567843809356293439045923::int)"
    by simp
  have z: "77194726140237499170946896809347261844041082483305163045229206237528959363949 = xgcd (1 + 2) 115792089210356248756420345214020892766061623724957744567843809356293439045923"
    by code_simp
  have s: "34640764307808988110061487271485351453481727502338462153734154616441765199739 = (77194726140237499170946896809347261844041082483305163045229206237528959363949 * (3 - 63830942748642766591328114306792865585839032471450051337242577431630791246316 * 2)) mod (115792089210356248756420345214020892766061623724957744567843809356293439045923::int)"
    by simp
  have c: "coprime (1 + 2) (115792089210356248756420345214020892766061623724957744567843809356293439045923::int)"
    by code_simp
  note t = SM2_Sign_spec [where H = toy_sm3 and ZA = "replicate 32 0x11"
      and message = "[0x6d, 0x65, 0x73]", OF toy_Init n e k d get x1 r z s]
  have sg: "SM2_Sign toy_miracl toy_sm3 [0x6d, 0x65, 0x73] (replicate 32 0x11)
         (big_to_bytes 32 3) (big_to_bytes 32 2)
       = Inr (big_to_bytes 32 63830942748642766591328114306792865585839032471450051337242577431630791246316, big_to_bytes 32 34640764307808988110061487271485351453481727502338462153734154616441765199739)"
    unfolding t [THEN conjunct1] by simp
  show ?thesis
    by (intro conjI toy_Init x1 c sg t [THEN conjunct2, THEN conjunct1, THEN mp, OF c])
qed



section \<open>Signing, then verifying\<close>

lemma dvd_between_eq:
  fixes n :: int
  assumes "n dvd x" and "0 < x" and "x < 2 * n"
  shows "x = n"
proof -
  obtain q where q: "x = n * q" using assms(1) by (rule dvdE)
  have n0: "0 < n" using assms(2,3) by linarith
  have "0 < q" using assms(2) n0 unfolding q by (simp add: zero_less_mult_iff)
  moreover have "q < 2"
  proof (rule ccontr)
    assume "\<not> q < 2"
    then have "2 \<le> q" by simp
    then have "n * 2 \<le> n * q" using n0 by (simp only: mult_le_cancel_left_pos)
    then show False using assms(3) unfolding q by simp
  qed
  ultimately have "q = 1" by linarith
  then show ?thesis unfolding q by simp
qed

text \<open>
  Claim C1.  For a private key \<open>d\<close> with \<open>1 \<le> d \<le> n - 2\<close>, a random number \<open>k\<close> in
  \<open>[1, n - 1]\<close>, any message and any \<open>ZA\<close>: when \<open>SM2_Sign\<close> returns 0 with the pair
  \<open>(R, S)\<close>, \<open>SM2_Verify\<close> of that pair against the public key \<open>d * G\<close> (its coordinates as
  32 big-endian bytes each) returns 0.  The operations of MIRACL on the curve are taken to
  satisfy the group laws for the base point of order \<open>n\<close>, and \<open>1 + d\<close> to be coprime to \<open>n\<close>,
  which holds for every such \<open>d\<close> because \<open>n\<close> is prime.
\<close>

theorem SM2_Sign_Verify:
  assumes ok: "sv_miracl_ok MIRACL"
    and init: "SM2_Init MIRACL = Inr g"
    and d1: "1 \<le> bytes_to_big 32 d" and d2: "bytes_to_big 32 d \<le> sv_n g - 2"
    and k1: "1 \<le> bytes_to_big 32 rand" and k2: "bytes_to_big 32 rand \<le> sv_n g - 1"
    and cop: "coprime (1 + bytes_to_big 32 d) (sv_n g)"
    and pub: "epoint_get (sv_curve g) (ecurve_mult (sv_curve g) (bytes_to_big 32 d) (sv_G g)) = (xA, yA)"
    and Px: "Px = big_to_bytes 32 xA" and Py: "Py = big_to_bytes 32 yA"
    and sign: "SM2_Sign MIRACL H message ZA rand d = Inr (R, S)"
  shows "SM2_Verify MIRACL H message ZA Px Py R S = Inr ()"
proof -
  define C where "C = sv_curve g"
  define n where "n = sv_n g"
  define G where "G = sv_G g"
  define dA where "dA = bytes_to_big 32 d"
  define k where "k = bytes_to_big 32 rand"
  define e where "e = bytes_to_big 32 (H (take 32 ZA @ message))"
  have GL: "group_laws C n G"
    unfolding C_def n_def G_def by (rule group_laws_of_init [OF ok init])
  have n1: "1 < n" and n2: "n < 256 ^ 32"
    using sv_n_gt_1 [OF init] sv_n_less [OF init] by (simp_all add: n_def)
  have k0: "0 \<le> k" and kn: "k < n" and k1': "1 \<le> k"
    using k1 k2 by (simp_all add: k_def n_def)
  have km: "k mod n \<noteq> 0" using k1' kn by simp
  have d0: "0 \<le> dA" and dn: "dA < n" and d1': "1 \<le> dA"
    using d1 d2 by (simp_all add: dA_def n_def)
  have dm: "dA mod n \<noteq> 0" using d1' dn by simp
  obtain x1 y1 where get: "epoint_get C (ecurve_mult C k G) = (x1, y1)"
    by (cases "epoint_get C (ecurve_mult C k G)")
  have x1: "0 \<le> x1" by (rule group_laws_coords(1) [OF GL k0 km get])
  define r where "r = (e + x1) mod n"
  define z where "z = xgcd (1 + dA) n"
  define s where "s = (z * (k - r * dA)) mod n"
  have res: "SM2_Sign MIRACL H message ZA rand d =
      (if r = 0 \<or> r + k = sv_n g then Inl ERR_GENERATE_R
       else if s = 0 then Inl ERR_GENERATE_S
       else Inr (big_to_bytes 32 r, big_to_bytes 32 s))"
    by (rule SM2_Sign_result [where H = H and ZA = ZA and message = message,
          OF init e_def k_def dA_def get [unfolded C_def G_def] x1 r_def [unfolded n_def]
          s_def [unfolded z_def n_def]])
  have r0: "r \<noteq> 0" and rk: "r + k \<noteq> n" and s0: "s \<noteq> 0"
    and R: "R = big_to_bytes 32 r" and S: "S = big_to_bytes 32 s"
    using sign unfolding res n_def by (simp_all split: if_splits)
  have rb: "0 \<le> r" "r < n" and sb: "0 \<le> s" "s < n"
    using n1 by (simp_all add: r_def s_def)
  have bR: "bytes_to_big 32 R = r" and bS: "bytes_to_big 32 S = s"
    unfolding R S using rb sb n2 by (simp_all add: bytes_to_big_big_to_bytes)
  have inv: "((1 + dA) * z) mod n = 1"
    unfolding z_def using d0 n1 cop [folded dA_def n_def] by (intro xgcd_inverse(1)) simp_all
  define t where "t = (r + s) mod n"
  note cg = sign_congruences [OF n1 inv s_def t_def]
  have t0: "t \<noteq> 0"
  proof
    assume "t = 0"
    then have "n dvd r + s" by (simp add: t_def mod_eq_0_iff_dvd)
    then have "n dvd (1 + dA) * (r + s)" by (rule dvd_mult)
    then have "n dvd (1 + dA) * (r + s) - ((1 + dA) * (r + s) - (r + k))"
      using cg(2) by (rule dvd_diff)
    then have "n dvd r + k" by simp
    moreover have "0 < r + k" using rb(1) k1' by linarith
    moreover have "r + k < 2 * n" using rb(2) kn by linarith
    ultimately have "r + k = n" by (rule dvd_between_eq)
    then show False using rk by simp
  qed
  have tb: "0 \<le> t" using n1 by (simp add: t_def)
  note co = group_laws_coords [OF GL d0 dm pub [folded C_def G_def dA_def]]
  have p2: "(2::int) ^ 256 = 256 ^ 32" by simp
  have bx: "bytes_to_big 32 Px = xA" and by': "bytes_to_big 32 Py = yA"
    unfolding Px Py using co(1,2,3,4) unfolding p2 by (simp_all add: bytes_to_big_big_to_bytes)
  have set: "epoint_set (sv_curve g) (bytes_to_big 32 Px) (bytes_to_big 32 Py)
      = Some (ecurve_mult C dA G)"
    unfolding bx by' C_def [symmetric] by (rule co(5))
  have "ecurve_mult C t (ecurve_mult C dA G) = ecurve_mult C (t * dA) G"
    by (rule group_laws_mult [OF GL tb d0])
  moreover have "ecurve_add C (ecurve_mult C s G) (ecurve_mult C (t * dA) G)
      = ecurve_mult C (s + t * dA) G"
    using tb d0 by (intro group_laws_add [OF GL sb(1)]) simp
  moreover have "ecurve_mult C (s + t * dA) G = ecurve_mult C k G"
  proof (rule group_laws_cong [OF GL _ k0 cg(1)])
    show "0 \<le> s + t * dA" using sb(1) tb d0 by simp
  qed
  ultimately have pt: "ecurve_add C (ecurve_mult C s G) (ecurve_mult C t (ecurve_mult C dA G))
      = ecurve_mult C k G"
    by simp
  have get': "epoint_get (sv_curve g)
      (ecurve_add (sv_curve g) (ecurve_mult (sv_curve g) s (sv_G g))
         (ecurve_mult (sv_curve g) t (ecurve_mult C dA G))) = (x1, y1)"
    unfolding C_def [symmetric] G_def [symmetric] pt by (rule get)
  have ver: "SM2_Verify MIRACL H message ZA Px Py R S =
      (if r < 1 \<or> r > sv_n g - 1 then Inl ERR_OUTRANGE_R
       else if s < 1 \<or> s > sv_n g - 1 then Inl ERR_OUTRANGE_S
       else if t = 0 then Inl ERR_GENERATE_T
       else if (e + x1) mod sv_n g = r then Inr ()
       else Inl ERR_DATA_MEMCMP)"
    by (rule SM2_Verify_result [where H = H and ZA = ZA and message = message,
          OF init set bR [symmetric] bS [symmetric] e_def t_def [unfolded n_def] get' x1])
  have c1: "\<not> (r < 1 \<or> r > n - 1)" using r0 rb by linarith
  have c2: "\<not> (s < 1 \<or> s > n - 1)" using s0 sb by linarith
  have c3: "(e + x1) mod n = r" by (simp add: r_def)
  show ?thesis
    unfolding ver n_def [symmetric] by (simp only: c1 c2 c3 t0 if_False if_True simp_thms)
qed

theorem SM2_Sign_Verify_witness:
  "sv_miracl_ok toy_miracl
   \<and> SM2_Init toy_miracl = Inr toy_globals
   \<and> 1 \<le> bytes_to_big 32 (big_to_bytes 32 2)
   \<and> bytes_to_big 32 (big_to_bytes 32 2) \<le> sv_n toy_globals - 2
   \<and> 1 \<le> bytes_to_big 32 (big_to_bytes 32 3)
   \<and> bytes_to_big 32 (big_to_bytes 32 3) \<le> sv_n toy_globals - 1
   \<and> coprime (1 + bytes_to_big 32 (big_to_bytes 32 2)) (sv_n toy_globals)
   \<and> epoint_get (sv_curve toy_globals)
        (ecurve_mult (sv_curve toy_globals) (bytes_to_big 32 (big_to_bytes 32 2)) (sv_G toy_globals))
       = (22963146547237050559479531362550074578802567295341616970375194840604139615432,
          85132369209828568825618990617112496413088388631904505083283536607588877201568)
   \<and> SM2_Sign toy_miracl toy_sm3 [0x6d, 0x65, 0x73] (replicate 32 0x11)
         (big_to_bytes 32 3) (big_to_bytes 32 2)
       = Inr (big_to_bytes 32 63830942748642766591328114306792865585839032471450051337242577431630791246316,
              big_to_bytes 32 34640764307808988110061487271485351453481727502338462153734154616441765199739)
   \<and> SM2_Verify toy_miracl toy_sm3 [0x6d, 0x65, 0x73] (replicate 32 0x11)
         (big_to_bytes 32 22963146547237050559479531362550074578802567295341616970375194840604139615432)
         (big_to_bytes 32 85132369209828568825618990617112496413088388631904505083283536607588877201568)
         (big_to_bytes 32 63830942748642766591328114306792865585839032471450051337242577431630791246316)
         (big_to_bytes 32 34640764307808988110061487271485351453481727502338462153734154616441765199739)
       = Inr ()"
proof -
  have d1: "1 \<le> bytes_to_big 32 (big_to_bytes 32 2)"
    by code_simp
  have d2: "bytes_to_big 32 (big_to_bytes 32 2) \<le> sv_n toy_globals - 2"
    unfolding toy_globals_sel by code_simp
  have k1: "1 \<le> bytes_to_big 32 (big_to_bytes 32 3)"
    by code_simp
  have k2: "bytes_to_big 32 (big_to_bytes 32 3) \<le> sv_n toy_globals - 1"
    unfolding toy_globals_sel by code_simp
  have cop: "coprime (1 + bytes_to_big 32 (big_to_bytes 32 2)) (sv_n toy_globals)"
    unfolding toy_globals_sel by code_simp
  have pub: "epoint_get (sv_curve toy_globals)
        (ecurve_mult (sv_curve toy_globals) (bytes_to_big 32 (big_to_bytes 32 2)) (sv_G toy_globals))
       = (22963146547237050559479531362550074578802567295341616970375194840604139615432, 85132369209828568825618990617112496413088388631904505083283536607588877201568)"
    unfolding toy_globals_sel by code_simp
  note v = SM2_Sign_Verify [OF toy_miracl_ok toy_Init d1 d2 k1 k2 cop pub refl refl toy_Sign]
  show ?thesis
    by (intro conjI toy_miracl_ok toy_Init d1 d2 k1 k2 cop pub toy_Sign v)
qed

end
